theory Spec2Isabelle
  imports Main
begin

section \<open>Data model (src/types/index.ts)\<close>

text \<open>
  Strings are lists of code units; an Isabelle \<open>char\<close> stands for a code unit below 256.
  Field names carry a prefix where two interfaces of the source share a name
  (\<open>id\<close>, \<open>status\<close>, \<open>message\<close>, \<open>start_time\<close>, \<open>end_time\<close>), since record fields
  of one theory share a name space and \<open>id\<close> is the identity function of HOL.
\<close>

record Tag =
  tag_id :: int
  tag_name :: string

record FailureDetail =
  detail_message :: string
  detail_stack :: "string option"

text \<open>
  \<open>JestTestResult\<close>: \<open>duration\<close> is optional in the source; instants and durations are
  milliseconds, taken as integers.
\<close>

record JestTestResult =
  ancestorTitles :: "string list"
  duration :: "int option"
  failureDetails :: "FailureDetail list"
  failureMessages :: "string list"
  fullName :: string
  numPassingAsserts :: nat
  status :: string
  title :: string

text \<open>
  \<open>SpecRun\<close>: the two time fields hold the result of \<open>Date.toISOString\<close>; the model keeps
  the instant that is rendered (milliseconds since the epoch) instead of its ISO-8601 text.
\<close>

record SpecRun =
  spec_id :: int
  spec_suite_id :: int
  spec_description :: string
  spec_status :: string
  spec_message :: string
  spec_tags :: "Tag list"
  spec_start_time :: int
  spec_end_time :: int

record SuiteRun =
  suite_id :: int
  suite_test_run_id :: int
  suite_name :: string
  suite_start_time :: int
  suite_end_time :: int
  spec_runs :: "SpecRun list"

record TestRun =
  run_id :: int
  test_project_name :: string
  test_project_id :: string
  test_seed :: int
  run_start_time :: int
  run_end_time :: int
  git_branch :: string
  git_sha :: string
  build_trigger_actor :: string
  build_url :: string
  client_type :: string
  suite_runs :: "SuiteRun list"

section \<open>Library functions of the host language used by the mapper\<close>

text \<open>\<open>Array.prototype.join\<close>: the elements separated by \<open>sep\<close>; the empty array gives the empty string.\<close>

fun join :: "string \<Rightarrow> string list \<Rightarrow> string" where
  "join sep [] = []"
| "join sep [x] = x"
| "join sep (x # y # ys) = x @ sep @ join sep (y # ys)"

definition newline :: string where
  "newline = [CHR 0x0A]"

text \<open>
  \<open>String.prototype.trim\<close> removes white space and line terminators from both ends.
  Below 256 these are tab, line feed, vertical tab, form feed, carriage return, space and
  the no-break space.
\<close>

definition isWhiteSpace :: "char \<Rightarrow> bool" where
  "isWhiteSpace c = (c \<in> {CHR 0x09, CHR 0x0A, CHR 0x0B, CHR 0x0C, CHR 0x0D, CHR 0x20, CHR 0xA0})"

definition trim :: "string \<Rightarrow> string" where
  "trim s = rev (dropWhile isWhiteSpace (rev (dropWhile isWhiteSpace s)))"

text \<open>
  \<open>String.prototype.split\<close> with a one-character separator: the pieces between the
  separators, empty pieces included; the empty string gives one empty piece.
\<close>

fun split :: "char \<Rightarrow> string \<Rightarrow> string list" where
  "split sep [] = [[]]"
| "split sep (c # cs) =
     (if c = sep then [] # split sep cs
      else (case split sep cs of
              [] \<Rightarrow> [[c]]
            | p # ps \<Rightarrow> (c # p) # ps))"

text \<open>
  \<open>Date.prototype.toISOString\<close> throws a RangeError when the time value is outside
  the range of \<open>Date\<close> (more than 8.64e15 ms from the epoch); otherwise it renders the instant.
\<close>

datatype error = RangeError

definition toISOString :: "int \<Rightarrow> error + int" where
  "toISOString t = (if \<bar>t\<bar> \<le> 8640000000000000 then Inr t else Inl RangeError)"

section \<open>Status normalizer and failure message (src/utils/mapper.ts)\<close>

definition mapJestStatusToFernStatus :: "string \<Rightarrow> string" where
  "mapJestStatusToFernStatus jestStatus =
     (if jestStatus = ''passed'' then ''passed''
      else if jestStatus = ''failed'' then ''failed''
      else if jestStatus = ''skipped'' \<or> jestStatus = ''pending'' \<or> jestStatus = ''disabled''
        then ''skipped''
      else if jestStatus = ''todo'' then ''pending''
      else ''unknown'')"

text \<open>
  \<open>extractFailureMessage\<close>. The guards \<open>test.failureMessages &&\<close> and
  \<open>test.failureDetails &&\<close> hold for every array, the declared type of both fields.
\<close>

definition extractFailureMessage :: "JestTestResult \<Rightarrow> string" where
  "extractFailureMessage test =
     (if status test = ''passed'' then ''''
      else if length (failureMessages test) > 0 then join newline (failureMessages test)
      else if length (failureDetails test) > 0
        then join newline (map detail_message (failureDetails test))
      else if status test = ''failed'' then ''Test failed'' else '''')"

definition buildSpecDescription :: "JestTestResult \<Rightarrow> string" where
  "buildSpecDescription test =
     (let ancestors = join '' > '' (ancestorTitles test)
      in if ancestors \<noteq> [] then ancestors @ '' > '' @ title test else title test)"

section \<open>Tag extraction\<close>

subsection \<open>The three regular expressions\<close>

text \<open>
  The class \<open>[a-zA-Z0-9_-]\<close> of the at- and hash-patterns.
\<close>

definition isTagChar :: "char \<Rightarrow> bool" where
  "isTagChar c =
     (let n = (of_char c :: nat)
      in (97 \<le> n \<and> n \<le> 122) \<or> (65 \<le> n \<and> n \<le> 90) \<or> (48 \<le> n \<and> n \<le> 57)
         \<or> c = CHR ''_'' \<or> c = CHR ''-'')"

datatype pattern = bracketPattern | atPattern | hashPattern

text \<open>
  \<open>matchAt p s\<close>: the match of pattern \<open>p\<close> anchored at the first character of \<open>s\<close>,
  as capture group 1 and the length of the whole match.
  \<^item> \<open>/\[([^\]]+)\]/\<close>: an opening bracket, the longest run of characters other than
    the closing bracket, which must not be empty, and a closing bracket. Giving back
    characters of the run cannot help, since the next character would not be a closing bracket.
  \<^item> \<open>/@([a-zA-Z0-9_-]+)/\<close> and \<open>/#([a-zA-Z0-9_-]+)/\<close>: the sigil and the longest
    non-empty run of class characters.
\<close>

fun matchAt :: "pattern \<Rightarrow> string \<Rightarrow> (string \<times> nat) option" where
  "matchAt p [] = None"
| "matchAt bracketPattern (c # cs) =
     (let inner = takeWhile (\<lambda>x. x \<noteq> CHR '']'') cs
      in if c = CHR ''['' \<and> inner \<noteq> [] \<and> length inner < length cs
         then Some (inner, length inner + 2) else None)"
| "matchAt atPattern (c # cs) =
     (let name = takeWhile isTagChar cs
      in if c = CHR ''@'' \<and> name \<noteq> [] then Some (name, length name + 1) else None)"
| "matchAt hashPattern (c # cs) =
     (let name = takeWhile isTagChar cs
      in if c = CHR ''#'' \<and> name \<noteq> [] then Some (name, length name + 1) else None)"

text \<open>
  The result of \<open>RegExp.prototype.exec\<close> on a global pattern: where the match starts,
  capture group 1, and the pattern's \<open>lastIndex\<close> after the match.
\<close>

record RegExpMatch =
  match_index :: nat
  group1 :: string
  lastIndex :: nat

text \<open>
  \<open>pattern.exec(str)\<close> with the pattern's \<open>lastIndex\<close> at \<open>i\<close>: the leftmost match
  starting at \<open>i\<close> or later, or \<open>null\<close> (here \<open>None\<close>) when there is none.
\<close>

function regexp_exec :: "pattern \<Rightarrow> string \<Rightarrow> nat \<Rightarrow> RegExpMatch option" where
  "regexp_exec p str i =
     (if length str < i then None
      else (case matchAt p (drop i str) of
              Some (g, len) \<Rightarrow> Some \<lparr>match_index = i, group1 = g, lastIndex = i + len\<rparr>
            | None \<Rightarrow> regexp_exec p str (Suc i)))"
  by pat_completeness auto
termination
  by (relation "measure (\<lambda>(p, str, i). Suc (length str) - i)") auto

declare regexp_exec.simps [simp del]

lemma matchAt_length:
  "matchAt p s = Some (g, len) \<Longrightarrow> 0 < len \<and> len \<le> length s"
  by (cases "(p, s)" rule: matchAt.cases)
     (auto simp: Let_def length_takeWhile_le split: if_splits)

lemma regexp_exec_bounds:
  "regexp_exec p str i = Some m \<Longrightarrow>
     i \<le> match_index m \<and> match_index m < lastIndex m \<and> lastIndex m \<le> length str"
proof (induction p str i rule: regexp_exec.induct)
  case (1 p str i)
  show ?case
  proof (cases "length str < i")
    case True
    with "1.prems" show ?thesis by (simp add: regexp_exec.simps)
  next
    case False
    show ?thesis
    proof (cases "matchAt p (drop i str)")
      case None
      with False "1.prems" have "regexp_exec p str (Suc i) = Some m"
        by (simp add: regexp_exec.simps [of p str i])
      with "1.IH" [OF False None] show ?thesis by simp
    next
      case (Some a)
      obtain g len where a: "a = (g, len)" by (cases a)
      from matchAt_length [of p "drop i str" g len] Some a
      have "0 < len" "len \<le> length str - i" by simp_all
      moreover from False Some a "1.prems"
      have "m = \<lparr>match_index = i, group1 = g, lastIndex = i + len\<rparr>"
        by (simp add: regexp_exec.simps [of p str i])
      ultimately show ?thesis using False by simp
    qed
  qed
qed

text \<open>
  The loop \<open>while ((m = pattern.exec(str)) !== null) { ... }\<close>, as the list of the
  matches it visits, starting with the pattern's \<open>lastIndex\<close> at \<open>i\<close>.
\<close>

function execLoop :: "pattern \<Rightarrow> string \<Rightarrow> nat \<Rightarrow> RegExpMatch list" where
  "execLoop p str i =
     (case regexp_exec p str i of
        None \<Rightarrow> []
      | Some m \<Rightarrow> m # execLoop p str (lastIndex m))"
  by pat_completeness auto
termination
proof (relation "measure (\<lambda>(p, str, i). length str - i)")
  show "wf (measure (\<lambda>(p, str, i). length str - i))" by simp
next
  fix p str i m
  assume "regexp_exec p str i = Some m"
  from regexp_exec_bounds [OF this]
  have "i < lastIndex m" "lastIndex m \<le> length str" by simp_all
  then show "((p, str, lastIndex m), (p, str, i)) \<in> measure (\<lambda>(p, str, i). length str - i)"
    by simp
qed

declare execLoop.simps [simp del]

subsection \<open>extractTagsFromString\<close>

text \<open>
  Each bracket match adds the trimmed, non-empty pieces of its interior; each at- and
  hash-match adds its capture. Every candidate has id 0.
\<close>


definition bracketNames :: "RegExpMatch \<Rightarrow> string list" where
  "bracketNames bracketMatch =
     (let tagNames = map trim (split CHR '','' (group1 bracketMatch))
      in filter (\<lambda>name. name \<noteq> []) tagNames)"

definition bracketTags :: "RegExpMatch \<Rightarrow> Tag list" where
  "bracketTags bracketMatch =
     map (\<lambda>name. \<lparr>tag_id = 0, tag_name = name\<rparr>) (bracketNames bracketMatch)"

definition mentionTag :: "RegExpMatch \<Rightarrow> Tag" where
  "mentionTag m = \<lparr>tag_id = 0, tag_name = group1 m\<rparr>"

definition extractTagsFromString :: "string \<Rightarrow> Tag list" where
  "extractTagsFromString str =
     concat (map bracketTags (execLoop bracketPattern str 0))
     @ map mentionTag (execLoop atPattern str 0)
     @ map mentionTag (execLoop hashPattern str 0)"

subsection \<open>extractTagsFromTest\<close>

text \<open>
  The state of the loop that removes duplicates: the counter \<open>tagId\<close>, the set
  \<open>uniqueTagNames\<close> of the names seen and the array \<open>uniqueTags\<close> built so far.
\<close>

record DedupState =
  tagId :: int
  uniqueTagNames :: "string set"
  uniqueTags :: "Tag list"

definition dedupStep :: "DedupState \<Rightarrow> Tag \<Rightarrow> DedupState" where
  "dedupStep st tag =
     (if tag_name tag \<notin> uniqueTagNames st
      then \<lparr>tagId = tagId st + 1,
            uniqueTagNames = insert (tag_name tag) (uniqueTagNames st),
            uniqueTags = uniqueTags st @ [\<lparr>tag_id = tagId st, tag_name = tag_name tag\<rparr>]\<rparr>
      else st)"

text \<open>
  The candidates of a test: those of its title, then those of each ancestor title in order.
\<close>

definition collectTags :: "JestTestResult \<Rightarrow> Tag list" where
  "collectTags test =
     foldl (\<lambda>tags ancestor. tags @ extractTagsFromString ancestor)
       (extractTagsFromString (title test)) (ancestorTitles test)"

text \<open>
  \<open>extractTagsFromTest\<close>: \<open>tagId\<close> starts at 1; the default tag is pushed with
  \<open>tagId++\<close> when there is no candidate; the loop then gives every first occurrence of a
  name the next \<open>tagId++\<close>.
\<close>

definition extractTagsFromTest :: "JestTestResult \<Rightarrow> Tag list" where
  "extractTagsFromTest test =
     (let tags = collectTags test;
          tagId0 = 1;
          (tags', tagId1) =
             (if length tags = 0
              then (tags @ [\<lparr>tag_id = tagId0, tag_name = ''default''\<rparr>], tagId0 + 1)
              else (tags, tagId0))
      in uniqueTags
           (foldl dedupStep \<lparr>tagId = tagId1, uniqueTagNames = {}, uniqueTags = []\<rparr> tags'))"

subsection \<open>mapJestTestToSpecRun\<close>

text \<open>
  \<open>test.duration || 0\<close> is 0 for an absent duration and the duration otherwise.
  The two calls of \<open>toISOString\<close> can throw; the error is the result then.
\<close>

definition mapJestTestToSpecRun :: "JestTestResult \<Rightarrow> int \<Rightarrow> int \<Rightarrow> int \<Rightarrow> error + SpecRun" where
  "mapJestTestToSpecRun test suiteStartTime suiteId specId =
     (let specDescription = buildSpecDescription test;
          status' = mapJestStatusToFernStatus (status test);
          message = extractFailureMessage test;
          tags = extractTagsFromTest test;
          testDuration = (case duration test of None \<Rightarrow> 0 | Some d \<Rightarrow> d)
      in case toISOString suiteStartTime of
           Inl e \<Rightarrow> Inl e
         | Inr startTime \<Rightarrow>
             (case toISOString (suiteStartTime + testDuration) of
                Inl e \<Rightarrow> Inl e
              | Inr endTime \<Rightarrow>
                  Inr \<lparr>spec_id = specId, spec_suite_id = suiteId,
                       spec_description = specDescription, spec_status = status',
                       spec_message = message, spec_tags = tags,
                       spec_start_time = startTime, spec_end_time = endTime\<rparr>))"

section \<open>Summary for the log\<close>

text \<open>The decimal text of a count, as the template literal renders a number.\<close>

function showNat :: "nat \<Rightarrow> string" where
  "showNat n =
     (if n < 10 then [char_of (48 + n)]
      else showNat (n div 10) @ [char_of (48 + n mod 10)])"
  by pat_completeness auto
termination
  by (relation "measure (\<lambda>n. n)") auto

declare showNat.simps [simp del]

definition countStatus :: "string \<Rightarrow> TestRun \<Rightarrow> nat" where
  "countStatus st testRun =
     foldl (\<lambda>sum suite. sum + length (filter (\<lambda>spec. spec_status spec = st) (spec_runs suite)))
       0 (suite_runs testRun)"

definition totalSpecs :: "TestRun \<Rightarrow> nat" where
  "totalSpecs testRun =
     foldl (\<lambda>sum suite. sum + length (spec_runs suite)) 0 (suite_runs testRun)"

definition passedSpecs :: "TestRun \<Rightarrow> nat" where
  "passedSpecs = countStatus ''passed''"

definition failedSpecs :: "TestRun \<Rightarrow> nat" where
  "failedSpecs = countStatus ''failed''"

definition skippedSpecs :: "TestRun \<Rightarrow> nat" where
  "skippedSpecs = countStatus ''skipped''"

definition generateTestSummary :: "TestRun \<Rightarrow> string" where
  "generateTestSummary testRun =
     join newline
       [''Fern Test Run Summary:'',
        ''  Project: '' @ test_project_id testRun,
        ''  Branch: '' @ git_branch testRun,
        ''  Commit: '' @ take 8 (git_sha testRun),
        ''  Suites: '' @ showNat (length (suite_runs testRun)),
        ''  Tests: '' @ showNat (totalSpecs testRun) @ '' total, ''
          @ showNat (passedSpecs testRun) @ '' passed, ''
          @ showNat (failedSpecs testRun) @ '' failed, ''
          @ showNat (skippedSpecs testRun) @ '' skipped'']"

section \<open>Transport client (src/client/index.ts)\<close>

subsection \<open>The HTTP library as the client uses it\<close>

text \<open>
  What one invocation of the underlying transport ends with: a response with its status,
  or no response at all, with the code of the network-level error
  (\<open>ECONNREFUSED\<close>, \<open>ENOTFOUND\<close>, \<open>ECONNRESET\<close>, \<open>ECONNABORTED\<close>, \<open>ERR_NETWORK\<close>).
\<close>

datatype TransportOutcome = HttpResponse nat | NoResponse string

text \<open>
  The request configuration; \<open>retryCount\<close> is the property \<open>__retryCount\<close> that the
  retry interceptor adds, undefined (\<open>None\<close>) on a fresh request.
\<close>

record RequestConfig =
  request_method :: string
  request_url :: string
  retryCount :: "nat option"

record AxiosResponse =
  response_status :: nat

record AxiosError =
  error_config :: "RequestConfig option"
  error_response :: "AxiosResponse option"
  error_code :: "string option"

text \<open>
  The library settles a request with its default \<open>validateStatus\<close> (the client sets
  none): a response with a status in [200,300) resolves; any other response rejects with
  an error that carries the response and the code \<open>ERR_BAD_REQUEST\<close> for a status in
  [400,500), \<open>ERR_BAD_RESPONSE\<close> for a status in [500,600) and no code otherwise; a
  request without response rejects with an error that carries the code and no response.
  The error carries the configuration of the request.
\<close>

definition settle :: "RequestConfig \<Rightarrow> TransportOutcome \<Rightarrow> AxiosError + AxiosResponse" where
  "settle config outcome =
     (case outcome of
        HttpResponse s \<Rightarrow>
          if 200 \<le> s \<and> s < 300 then Inr \<lparr>response_status = s\<rparr>
          else Inl \<lparr>error_config = Some config,
                    error_response = Some \<lparr>response_status = s\<rparr>,
                    error_code =
                      (if 400 \<le> s \<and> s < 500 then Some ''ERR_BAD_REQUEST''
                       else if 500 \<le> s \<and> s < 600 then Some ''ERR_BAD_RESPONSE''
                       else None)\<rparr>
      | NoResponse code \<Rightarrow>
          Inl \<lparr>error_config = Some config, error_response = None, error_code = Some code\<rparr>)"

subsection \<open>setupRetryInterceptor\<close>

text \<open>
  The error handler either rejects with the error or, after waiting
  \<open>retryDelay * config.__retryCount\<close> ms, issues the request again with the configuration.
  The counter is incremented on the configuration before the test of the error, so a
  rejected error carries the incremented counter too. \<open>undefined >= retries\<close> is false.
\<close>

datatype InterceptorResult = Reject AxiosError | Retry RequestConfig int

definition retryInterceptor :: "int \<Rightarrow> int \<Rightarrow> AxiosError \<Rightarrow> InterceptorResult" where
  "retryInterceptor retries retryDelay error =
     (case error_config error of
        None \<Rightarrow> Reject error
      | Some config \<Rightarrow>
          if (case retryCount config of None \<Rightarrow> False | Some c \<Rightarrow> int c \<ge> retries)
          then Reject error
          else
            (let count = (case retryCount config of None \<Rightarrow> 0 | Some c \<Rightarrow> c) + 1;
                 config' = config\<lparr>retryCount := Some count\<rparr>
             in if error_response error = None
                   \<or> (case error_response error of
                         None \<Rightarrow> False
                       | Some r \<Rightarrow> response_status r \<ge> 500 \<and> response_status r < 600)
                   \<or> error_code error = Some ''ECONNABORTED''
                   \<or> error_code error = Some ''ENOTFOUND''
                   \<or> error_code error = Some ''ECONNRESET''
                   \<or> error_code error = Some ''ECONNREFUSED''
                then Retry config' (retryDelay * int count)
                else Reject (error\<lparr>error_config := Some config'\<rparr>)))"

text \<open>
  What a call leaves behind: how many times the transport was invoked, and the delays
  waited before the retries.
\<close>

record Trace =
  calls :: nat
  waits :: "int list"

lemma settle_config:
  "settle config outcome = Inl e \<Longrightarrow> error_config e = Some config"
  by (auto simp: settle_def split: TransportOutcome.splits if_splits)

lemma retryInterceptor_Retry:
  "retryInterceptor retries retryDelay e = Retry config' d \<Longrightarrow> error_config e = Some config \<Longrightarrow>
     (case retryCount config of
        None \<Rightarrow> retryCount config' = Some 1
      | Some c \<Rightarrow> int c < retries \<and> retryCount config' = Some (Suc c))"
  by (auto simp: retryInterceptor_def Let_def split: option.splits if_splits)

text \<open>
  One request through the client instance: the transport is invoked (its \<open>k\<close>-th
  invocation ends with \<open>transport k\<close>), the library settles it, and a rejection goes
  through the retry interceptor, whose retry is a request through the same instance.
\<close>

function httpClient ::
  "int \<Rightarrow> int \<Rightarrow> (nat \<Rightarrow> TransportOutcome) \<Rightarrow> RequestConfig \<Rightarrow> Trace
     \<Rightarrow> (AxiosError + AxiosResponse) \<times> Trace" where
  "httpClient retries retryDelay transport config tr =
     (case settle config (transport (calls tr)) of
        Inr response \<Rightarrow> (Inr response, tr\<lparr>calls := Suc (calls tr)\<rparr>)
      | Inl error \<Rightarrow>
          (case retryInterceptor retries retryDelay error of
             Reject e \<Rightarrow> (Inl e, tr\<lparr>calls := Suc (calls tr)\<rparr>)
           | Retry config' delay \<Rightarrow>
               httpClient retries retryDelay transport config'
                 (tr\<lparr>calls := Suc (calls tr), waits := waits tr @ [delay]\<rparr>)))"
  by pat_completeness auto
termination
proof (relation "measure (\<lambda>(retries, retryDelay, transport, config, tr).
          case retryCount config of None \<Rightarrow> nat retries + 2 | Some c \<Rightarrow> nat (retries - int c))")
  show "wf (measure (\<lambda>(retries, retryDelay, transport, config, tr).
          case retryCount config of None \<Rightarrow> nat retries + 2 | Some c \<Rightarrow> nat (retries - int c)))"
    by simp
next
  fix retries retryDelay :: int and transport :: "nat \<Rightarrow> TransportOutcome"
    and config config' :: RequestConfig and tr :: Trace and e :: AxiosError and delay :: int
  assume s: "settle config (transport (calls tr)) = Inl e"
    and r: "retryInterceptor retries retryDelay e = Retry config' delay"
  from retryInterceptor_Retry [OF r settle_config [OF s]]
  show "((retries, retryDelay, transport, config',
           tr\<lparr>calls := Suc (calls tr), waits := waits tr @ [delay]\<rparr>),
          (retries, retryDelay, transport, config, tr))
        \<in> measure (\<lambda>(retries, retryDelay, transport, config, tr).
            case retryCount config of None \<Rightarrow> nat retries + 2 | Some c \<Rightarrow> nat (retries - int c))"
    by (auto split: option.splits)
qed

declare httpClient.simps [simp del]

subsection \<open>FernApiClient\<close>

record FernClientOptions =
  opt_baseUrl :: "string option"
  opt_timeout :: "int option"
  opt_retries :: "int option"
  opt_retryDelay :: "int option"

text \<open>
  The client holds what its constructor fixes; \<open>client_retries\<close> and \<open>client_retryDelay\<close>
  are the two arguments the constructor passes to \<open>setupRetryInterceptor\<close>.
  \<open>x || d\<close> is \<open>d\<close> when \<open>x\<close> is absent, zero or the empty string.
\<close>

record FernApiClient =
  projectId :: string
  baseUrl :: string
  client_timeout :: int
  client_retries :: int
  client_retryDelay :: int

definition orDefaultNum :: "int option \<Rightarrow> int \<Rightarrow> int" where
  "orDefaultNum x d = (case x of None \<Rightarrow> d | Some v \<Rightarrow> if v = 0 then d else v)"

definition orDefaultStr :: "string option \<Rightarrow> string \<Rightarrow> string" where
  "orDefaultStr x d = (case x of None \<Rightarrow> d | Some v \<Rightarrow> if v = [] then d else v)"

definition createFernClient :: "string \<Rightarrow> FernClientOptions \<Rightarrow> FernApiClient" where
  "createFernClient pid options =
     \<lparr>projectId = pid,
      baseUrl = orDefaultStr (opt_baseUrl options) ''http://localhost:8080'',
      client_timeout = orDefaultNum (opt_timeout options) 30000,
      client_retries = orDefaultNum (opt_retries options) 3,
      client_retryDelay = orDefaultNum (opt_retryDelay options) 1000\<rparr>"

definition newTrace :: Trace where
  "newTrace = \<lparr>calls = 0, waits = []\<rparr>"

text \<open>
  \<open>report\<close>: both branches on the status of a resolved response only log and return;
  the handler of a rejection logs and throws the error again.
\<close>

definition report :: "FernApiClient \<Rightarrow> (nat \<Rightarrow> TransportOutcome) \<Rightarrow> (AxiosError + unit) \<times> Trace" where
  "report client transport =
     (case httpClient (client_retries client) (client_retryDelay client) transport
             \<lparr>request_method = ''post'', request_url = ''/api/v1/test-runs'', retryCount = None\<rparr>
             newTrace of
        (Inr response, tr) \<Rightarrow>
          (if response_status response \<ge> 200 \<and> response_status response < 300
           then (Inr (), tr) else (Inr (), tr))
      | (Inl error, tr) \<Rightarrow> (Inl error, tr))"

text \<open>
  \<open>pingResult\<close> is the body of \<open>ping\<close> on the outcome of \<open>await this.httpClient.get(...)\<close>:
  the status test for a response, and \<open>false\<close> from the handler for any rejection.
\<close>

definition pingResult :: "AxiosError + AxiosResponse \<Rightarrow> bool" where
  "pingResult outcome =
     (case outcome of
        Inr response \<Rightarrow> response_status response \<ge> 200 \<and> response_status response < 300
      | Inl error \<Rightarrow> False)"

definition ping :: "FernApiClient \<Rightarrow> (nat \<Rightarrow> TransportOutcome) \<Rightarrow> bool \<times> Trace" where
  "ping client transport =
     (case httpClient (client_retries client) (client_retryDelay client) transport
             \<lparr>request_method = ''get'', request_url = ''/api/v1/health'', retryCount = None\<rparr>
             newTrace of
        (outcome, tr) \<Rightarrow> (pingResult outcome, tr))"

section \<open>Properties of the regular-expression loop\<close>

lemma regexp_exec_match:
  "regexp_exec p str i = Some m \<Longrightarrow>
     matchAt p (drop (match_index m) str) = Some (group1 m, lastIndex m - match_index m)"
proof (induction p str i rule: regexp_exec.induct)
  case (1 p str i)
  show ?case
  proof (cases "length str < i")
    case True
    with "1.prems" show ?thesis by (simp add: regexp_exec.simps)
  next
    case False
    show ?thesis
    proof (cases "matchAt p (drop i str)")
      case None
      with False "1.prems" have "regexp_exec p str (Suc i) = Some m"
        by (simp add: regexp_exec.simps [of p str i])
      with "1.IH" [OF False None] show ?thesis by simp
    next
      case (Some a)
      obtain g len where a: "a = (g, len)" by (cases a)
      from False Some a "1.prems"
      have "m = \<lparr>match_index = i, group1 = g, lastIndex = i + len\<rparr>"
        by (simp add: regexp_exec.simps [of p str i])
      with Some a show ?thesis by simp
    qed
  qed
qed

lemma execLoop_bounds:
  "m \<in> set (execLoop p str i) \<Longrightarrow>
     i \<le> match_index m \<and> match_index m < lastIndex m \<and> lastIndex m \<le> length str"
proof (induction p str i rule: execLoop.induct)
  case (1 p str i)
  show ?case
  proof (cases "regexp_exec p str i")
    case None
    with "1.prems" show ?thesis by (simp add: execLoop.simps [of p str i])
  next
    case (Some m0)
    note b = regexp_exec_bounds [OF Some]
    from "1.prems" Some have "m = m0 \<or> m \<in> set (execLoop p str (lastIndex m0))"
      by (simp add: execLoop.simps [of p str i])
    then show ?thesis
    proof
      assume "m = m0"
      with b show ?thesis by simp
    next
      assume "m \<in> set (execLoop p str (lastIndex m0))"
      from "1.IH" [OF Some this] b show ?thesis by simp
    qed
  qed
qed

lemma execLoop_match:
  "m \<in> set (execLoop p str i) \<Longrightarrow>
     matchAt p (drop (match_index m) str) = Some (group1 m, lastIndex m - match_index m)"
proof (induction p str i rule: execLoop.induct)
  case (1 p str i)
  show ?case
  proof (cases "regexp_exec p str i")
    case None
    with "1.prems" show ?thesis by (simp add: execLoop.simps [of p str i])
  next
    case (Some m0)
    from "1.prems" Some have "m = m0 \<or> m \<in> set (execLoop p str (lastIndex m0))"
      by (simp add: execLoop.simps [of p str i])
    then show ?thesis
    proof
      assume "m = m0"
      with regexp_exec_match [OF Some] show ?thesis by simp
    next
      assume "m \<in> set (execLoop p str (lastIndex m0))"
      from "1.IH" [OF Some this] show ?thesis .
    qed
  qed
qed

lemma execLoop_sorted:
  "sorted_wrt (\<lambda>a b. lastIndex a \<le> match_index b) (execLoop p str i)"
proof (induction p str i rule: execLoop.induct)
  case (1 p str i)
  show ?case
  proof (cases "regexp_exec p str i")
    case None
    then show ?thesis by (simp add: execLoop.simps [of p str i])
  next
    case (Some m0)
    have "\<forall>m \<in> set (execLoop p str (lastIndex m0)). lastIndex m0 \<le> match_index m"
      using execLoop_bounds by blast
    with "1.IH" [OF Some] Some show ?thesis
      by (simp add: execLoop.simps [of p str i])
  qed
qed

lemma extractTagsFromString_names:
  "map tag_name (extractTagsFromString str) =
     concat (map bracketNames (execLoop bracketPattern str 0))
     @ map group1 (execLoop atPattern str 0)
     @ map group1 (execLoop hashPattern str 0)"
  by (simp add: extractTagsFromString_def map_concat bracketTags_def mentionTag_def comp_def)

lemma collectTags_eq:
  "collectTags test =
     extractTagsFromString (title test) @ concat (map extractTagsFromString (ancestorTitles test))"
proof -
  have "foldl (\<lambda>tags ancestor. tags @ extractTagsFromString ancestor) acc xs
          = acc @ concat (map extractTagsFromString xs)" for acc xs
    by (induction xs arbitrary: acc) simp_all
  then show ?thesis by (simp add: collectTags_def)
qed

subsection \<open>Completeness of the loop\<close>

lemma regexp_exec_None:
  "regexp_exec p str i = None \<Longrightarrow> i \<le> j \<Longrightarrow> j \<le> length str \<Longrightarrow> matchAt p (drop j str) = None"
proof (induction p str i rule: regexp_exec.induct)
  case (1 p str i)
  from "1.prems" have le: "\<not> length str < i" by simp
  show ?case
  proof (cases "matchAt p (drop i str)")
    case None
    with le "1.prems"(1) have n: "regexp_exec p str (Suc i) = None"
      by (simp add: regexp_exec.simps [of p str i])
    show ?thesis
    proof (cases "j = i")
      case True
      with None show ?thesis by simp
    next
      case False
      with "1.prems" have "Suc i \<le> j" by simp
      from "1.IH" [OF le None n this "1.prems"(3)] show ?thesis .
    qed
  next
    case (Some a)
    with le "1.prems"(1) show ?thesis
      by (simp add: regexp_exec.simps [of p str i] split: prod.splits)
  qed
qed

lemma regexp_exec_first:
  "regexp_exec p str i = Some m \<Longrightarrow> i \<le> k \<Longrightarrow> k < match_index m \<Longrightarrow>
     matchAt p (drop k str) = None"
proof (induction p str i rule: regexp_exec.induct)
  case (1 p str i)
  show ?case
  proof (cases "length str < i")
    case True
    with "1.prems" show ?thesis by (simp add: regexp_exec.simps)
  next
    case False
    show ?thesis
    proof (cases "matchAt p (drop i str)")
      case None
      with False "1.prems"(1) have s: "regexp_exec p str (Suc i) = Some m"
        by (simp add: regexp_exec.simps [of p str i])
      show ?thesis
      proof (cases "k = i")
        case True
        with None show ?thesis by simp
      next
        case False': False
        with "1.prems" have "Suc i \<le> k" by simp
        from "1.IH" [OF False None s this "1.prems"(3)] show ?thesis .
      qed
    next
      case (Some a)
      obtain g len where a: "a = (g, len)" by (cases a)
      from False Some a "1.prems"(1)
      have "m = \<lparr>match_index = i, group1 = g, lastIndex = i + len\<rparr>"
        by (simp add: regexp_exec.simps [of p str i])
      with "1.prems" show ?thesis by simp
    qed
  qed
qed

lemma execLoop_complete:
  "i \<le> j \<Longrightarrow> j \<le> length str \<Longrightarrow> matchAt p (drop j str) \<noteq> None \<Longrightarrow>
     \<exists>m \<in> set (execLoop p str i). match_index m \<le> j \<and> j < lastIndex m"
proof (induction p str i rule: execLoop.induct)
  case (1 p str i)
  show ?case
  proof (cases "regexp_exec p str i")
    case None
    from regexp_exec_None [OF None "1.prems"(1,2)] "1.prems"(3) show ?thesis by simp
  next
    case (Some m0)
    have e: "execLoop p str i = m0 # execLoop p str (lastIndex m0)"
      using Some by (simp add: execLoop.simps [of p str i])
    have a: "match_index m0 \<le> j"
    proof (rule ccontr)
      assume "\<not> match_index m0 \<le> j"
      then have "j < match_index m0" by simp
      from regexp_exec_first [OF Some "1.prems"(1) this] "1.prems"(3) show False by simp
    qed
    show ?thesis
    proof (cases "j < lastIndex m0")
      case True
      with a e show ?thesis by simp
    next
      case False
      then have "lastIndex m0 \<le> j" by simp
      from "1.IH" [OF Some this "1.prems"(2,3)] e show ?thesis by auto
    qed
  qed
qed

subsection \<open>What the three patterns match\<close>

lemma takeWhile_split:
  "takeWhile P xs = g \<longleftrightarrow>
     (\<exists>rest. xs = g @ rest \<and> list_all P g \<and> (rest = [] \<or> \<not> P (hd rest)))"
proof
  assume "takeWhile P xs = g"
  then have "xs = g @ dropWhile P xs" "list_all P g"
    "dropWhile P xs = [] \<or> \<not> P (hd (dropWhile P xs))"
    using takeWhile_dropWhile_id [of P xs] hd_dropWhile [of P xs]
    by (auto simp: list_all_iff dest: set_takeWhileD)
  then show "\<exists>rest. xs = g @ rest \<and> list_all P g \<and> (rest = [] \<or> \<not> P (hd rest))"
    by blast
next
  assume "\<exists>rest. xs = g @ rest \<and> list_all P g \<and> (rest = [] \<or> \<not> P (hd rest))"
  then obtain rest where r: "xs = g @ rest" "list_all P g" "rest = [] \<or> \<not> P (hd rest)"
    by blast
  from r(2) have "takeWhile P (g @ rest) = g @ takeWhile P rest"
    by (simp add: takeWhile_append2 list_all_iff)
  moreover from r(3) have "takeWhile P rest = []" by (cases rest) auto
  ultimately show "takeWhile P xs = g" using r(1) by simp
qed

lemma matchAt_bracket_iff:
  "matchAt bracketPattern s = Some (g, len) \<longleftrightarrow>
     (\<exists>rest. s = CHR ''['' # g @ CHR '']'' # rest \<and> g \<noteq> [] \<and> CHR '']'' \<notin> set g
            \<and> len = length g + 2)"
proof (cases s)
  case Nil
  then show ?thesis by simp
next
  case (Cons c cs)
  let ?P = "\<lambda>x. x \<noteq> CHR '']''"
  show ?thesis
  proof
    assume m: "matchAt bracketPattern s = Some (g, len)"
    with Cons have c: "c = CHR ''[''" and g: "g = takeWhile ?P cs" "g \<noteq> []"
      and l: "length g < length cs" "len = length g + 2"
      by (auto simp: Let_def split: if_splits)
    from g(1) have "cs = g @ dropWhile ?P cs" by simp
    moreover from l(1) g(1) have ne: "dropWhile ?P cs \<noteq> []"
      by (metis append_Nil2 calculation less_irrefl)
    with hd_dropWhile [of ?P cs] have "hd (dropWhile ?P cs) = CHR '']''" by simp
    with ne have "dropWhile ?P cs = CHR '']'' # tl (dropWhile ?P cs)"
      by (cases "dropWhile ?P cs") simp_all
    ultimately have "cs = g @ CHR '']'' # tl (dropWhile ?P cs)" by simp
    moreover from g(1) have "CHR '']'' \<notin> set g" by (auto dest: set_takeWhileD)
    ultimately show "\<exists>rest. s = CHR ''['' # g @ CHR '']'' # rest \<and> g \<noteq> [] \<and> CHR '']'' \<notin> set g
            \<and> len = length g + 2"
      using Cons c g(2) l(2) by blast
  next
    assume "\<exists>rest. s = CHR ''['' # g @ CHR '']'' # rest \<and> g \<noteq> [] \<and> CHR '']'' \<notin> set g
            \<and> len = length g + 2"
    then obtain rest where r: "s = CHR ''['' # g @ CHR '']'' # rest" "g \<noteq> []"
      "CHR '']'' \<notin> set g" "len = length g + 2" by blast
    from r(3) have "takeWhile ?P (g @ CHR '']'' # rest) = g"
      by (subst takeWhile_append2) auto
    with r show "matchAt bracketPattern s = Some (g, len)" by (simp add: Let_def)
  qed
qed

lemma matchAt_at_iff:
  "matchAt atPattern s = Some (g, len) \<longleftrightarrow>
     (\<exists>rest. s = CHR ''@'' # g @ rest \<and> g \<noteq> [] \<and> list_all isTagChar g
            \<and> (rest = [] \<or> \<not> isTagChar (hd rest)) \<and> len = length g + 1)"
proof (cases s)
  case Nil
  then show ?thesis by simp
next
  case (Cons c cs)
  have "matchAt atPattern s = Some (g, len) \<longleftrightarrow>
      c = CHR ''@'' \<and> takeWhile isTagChar cs = g \<and> g \<noteq> [] \<and> len = length g + 1"
    using Cons by (auto simp: Let_def)
  also have "\<dots> \<longleftrightarrow> (\<exists>rest. s = CHR ''@'' # g @ rest \<and> g \<noteq> [] \<and> list_all isTagChar g
            \<and> (rest = [] \<or> \<not> isTagChar (hd rest)) \<and> len = length g + 1)"
    using Cons by (auto simp: takeWhile_split)
  finally show ?thesis .
qed

lemma matchAt_hash_iff:
  "matchAt hashPattern s = Some (g, len) \<longleftrightarrow>
     (\<exists>rest. s = CHR ''#'' # g @ rest \<and> g \<noteq> [] \<and> list_all isTagChar g
            \<and> (rest = [] \<or> \<not> isTagChar (hd rest)) \<and> len = length g + 1)"
proof (cases s)
  case Nil
  then show ?thesis by simp
next
  case (Cons c cs)
  have "matchAt hashPattern s = Some (g, len) \<longleftrightarrow>
      c = CHR ''#'' \<and> takeWhile isTagChar cs = g \<and> g \<noteq> [] \<and> len = length g + 1"
    using Cons by (auto simp: Let_def)
  also have "\<dots> \<longleftrightarrow> (\<exists>rest. s = CHR ''#'' # g @ rest \<and> g \<noteq> [] \<and> list_all isTagChar g
            \<and> (rest = [] \<or> \<not> isTagChar (hd rest)) \<and> len = length g + 1)"
    using Cons by (auto simp: takeWhile_split)
  finally show ?thesis .
qed


text \<open>The characters of the class \<open>[a-zA-Z0-9_-]\<close>, written out.\<close>

definition tagChars :: string where
  "tagChars = ''abcdefghijklmnopqrstuvwxyzABCDEFGHIJKLMNOPQRSTUVWXYZ0123456789_-''"

lemma tagChars_eq: "tagChars = map char_of ([97..<123] @ [65..<91] @ [48..<58] @ [95, 45::nat])"
  unfolding tagChars_def by code_simp

lemma isTagChar_iff: "isTagChar c \<longleftrightarrow> c \<in> set tagChars"
proof
  assume "c \<in> set tagChars"
  moreover have "list_all isTagChar tagChars" unfolding tagChars_def by code_simp
  ultimately show "isTagChar c" by (simp add: list_all_iff)
next
  assume t: "isTagChar c"
  let ?n = "of_char c :: nat"
  have u: "CHR ''_'' = char_of (95::nat)" "CHR ''-'' = char_of (45::nat)"
    using char_of_char [of "CHR ''_''", where ?'a = nat] char_of_char [of "CHR ''-''", where ?'a = nat]
    by simp_all
  from t have "?n \<in> {97..<123} \<union> {65..<91} \<union> {48..<58} \<union> {95, 45}"
    by (auto simp: isTagChar_def Let_def)
  then have "?n \<in> set ([97..<123] @ [65..<91] @ [48..<58] @ [95, 45])"
    unfolding set_append set_upt by auto
  then have "char_of ?n \<in> char_of ` set ([97..<123] @ [65..<91] @ [48..<58] @ [95, 45::nat])"
    by (rule imageI)
  then show "c \<in> set tagChars" by (simp only: tagChars_eq set_map char_of_char)
qed

subsection \<open>Captures of a string built from parts\<close>

text \<open>A match moved \<open>k\<close> characters to the right.\<close>

definition shiftMatch :: "nat \<Rightarrow> RegExpMatch \<Rightarrow> RegExpMatch" where
  "shiftMatch k m = m\<lparr>match_index := k + match_index m, lastIndex := k + lastIndex m\<rparr>"

lemma regexp_exec_shift:
  "regexp_exec p (pre @ s) (length pre + i) = map_option (shiftMatch (length pre)) (regexp_exec p s i)"
proof (induction p s i rule: regexp_exec.induct)
  case (1 p str i)
  show ?case
  proof (cases "length str < i")
    case True
    then show ?thesis
      by (simp add: regexp_exec.simps [of p str i] regexp_exec.simps [of p "pre @ str"])
  next
    case False
    show ?thesis
    proof (cases "matchAt p (drop i str)")
      case None
      from "1.IH" [OF False None] False None show ?thesis
        by (simp add: regexp_exec.simps [of p str i]
            regexp_exec.simps [of p "pre @ str" "length pre + i"])
    next
      case (Some a)
      with False show ?thesis
        by (simp add: regexp_exec.simps [of p str i]
            regexp_exec.simps [of p "pre @ str" "length pre + i"] shiftMatch_def
            split: prod.splits)
    qed
  qed
qed

lemma execLoop_shift:
  "execLoop p (pre @ s) (length pre + i) = map (shiftMatch (length pre)) (execLoop p s i)"
proof (induction p s i rule: execLoop.induct)
  case (1 p str i)
  show ?case
  proof (cases "regexp_exec p str i")
    case None
    then show ?thesis
      by (simp add: execLoop.simps [of p str i]
          execLoop.simps [of p "pre @ str" "length pre + i"] regexp_exec_shift)
  next
    case (Some m)
    from "1.IH" [OF Some] Some show ?thesis
      by (simp add: execLoop.simps [of p str i]
          execLoop.simps [of p "pre @ str" "length pre + i"] regexp_exec_shift shiftMatch_def)
  qed
qed

text \<open>The captures of the matches that the loop of a pattern visits on a string.\<close>

definition captures :: "pattern \<Rightarrow> string \<Rightarrow> string list" where
  "captures p str = map group1 (execLoop p str 0)"

lemma captures_shift:
  "map group1 (execLoop p (pre @ s) (length pre)) = captures p s"
  using execLoop_shift [of p pre s 0]
  by (simp add: captures_def comp_def shiftMatch_def)

lemma captures_Nil: "captures p [] = []"
  by (simp add: captures_def execLoop.simps [of p "[]" 0] regexp_exec.simps [of p "[]" 0]
      regexp_exec.simps [of p "[]" "Suc 0"])

lemma captures_skip:
  assumes "matchAt p (c # s) = None"
  shows "captures p (c # s) = captures p s"
proof -
  have e: "regexp_exec p (c # s) 0 = map_option (shiftMatch 1) (regexp_exec p s 0)"
    using assms regexp_exec_shift [of p "[c]" s 0]
    by (simp add: regexp_exec.simps [of p "c # s" 0])
  show ?thesis
  proof (cases "regexp_exec p s 0")
    case None
    with e show ?thesis
      by (simp add: captures_def execLoop.simps [of p "c # s" 0] execLoop.simps [of p s 0])
  next
    case (Some m)
    from execLoop_shift [of p "[c]" s "lastIndex m"]
    have "execLoop p (c # s) (Suc (lastIndex m)) = map (shiftMatch 1) (execLoop p s (lastIndex m))"
      by simp
    with e Some show ?thesis
      by (simp add: captures_def execLoop.simps [of p "c # s" 0] execLoop.simps [of p s 0]
          shiftMatch_def comp_def)
  qed
qed

lemma captures_match:
  assumes "matchAt p s = Some (g, len)"
  shows "captures p s = g # captures p (drop len s)"
proof -
  from matchAt_length [OF assms] have l: "len \<le> length s" by simp
  have "regexp_exec p s 0 = Some \<lparr>match_index = 0, group1 = g, lastIndex = len\<rparr>"
    using assms by (simp add: regexp_exec.simps [of p s 0])
  then have "execLoop p s 0 = \<lparr>match_index = 0, group1 = g, lastIndex = len\<rparr> # execLoop p s len"
    by (simp add: execLoop.simps [of p s 0])
  moreover from l captures_shift [of p "take len s" "drop len s"]
  have "map group1 (execLoop p s len) = captures p (drop len s)"
    by (simp add: min_def split: if_splits)
  ultimately show ?thesis by (simp add: captures_def)
qed

text \<open>The character every match of a pattern starts with.\<close>

fun sigil :: "pattern \<Rightarrow> char" where
  "sigil bracketPattern = CHR ''[''"
| "sigil atPattern = CHR ''@''"
| "sigil hashPattern = CHR ''#''"

lemma matchAt_sigil: "c \<noteq> sigil p \<Longrightarrow> matchAt p (c # s) = None"
  by (cases p) (simp_all add: Let_def)

lemma captures_no_sigil: "sigil p \<notin> set pre \<Longrightarrow> captures p (pre @ s) = captures p s"
proof (induction pre)
  case Nil
  then show ?case by simp
next
  case (Cons c pre)
  then have "matchAt p (c # pre @ s) = None" by (intro matchAt_sigil) auto
  from captures_skip [OF this] Cons show ?case by simp
qed

lemma captures_none: "sigil p \<notin> set s \<Longrightarrow> captures p s = []"
  using captures_no_sigil [of p s "[]"] by (simp add: captures_Nil)

subsection \<open>Splitting and trimming\<close>

lemma split_not_Nil: "split sep s \<noteq> []"
  by (induction s) (auto split: list.splits)

lemma join_Cons_head: "join sep ((c # p) # ps) = c # join sep (p # ps)"
  by (cases ps) simp_all

lemma split_join: "join [sep] (split sep s) = s"
proof (induction s)
  case Nil
  then show ?case by simp
next
  case (Cons c cs)
  obtain p ps where e: "split sep cs = p # ps"
    using split_not_Nil [of sep cs] by (cases "split sep cs") auto
  with Cons show ?case by (simp add: join_Cons_head)
qed

lemma split_pieces: "list_all (\<lambda>q. sep \<notin> set q) (split sep s)"
  by (induction s) (auto split: list.splits)

lemma trim_spec:
  "\<exists>a b. s = a @ trim s @ b \<and> list_all isWhiteSpace a \<and> list_all isWhiteSpace b
         \<and> (trim s = [] \<or> (\<not> isWhiteSpace (hd (trim s)) \<and> \<not> isWhiteSpace (last (trim s))))"
proof -
  let ?a = "takeWhile isWhiteSpace s"
  let ?s1 = "dropWhile isWhiteSpace s"
  let ?b = "rev (takeWhile isWhiteSpace (rev ?s1))"
  have t: "trim s = rev (dropWhile isWhiteSpace (rev ?s1))" by (simp add: trim_def)
  have "?s1 = rev (dropWhile isWhiteSpace (rev ?s1)) @ ?b"
    by (simp only: rev_append [symmetric] takeWhile_dropWhile_id rev_rev_ident)
  then have s1: "?s1 = trim s @ ?b" by (simp only: t)
  then have s: "s = ?a @ trim s @ ?b"
    by (metis takeWhile_dropWhile_id)
  have a: "list_all isWhiteSpace ?a" by (auto simp: list_all_iff dest: set_takeWhileD)
  have b: "list_all isWhiteSpace ?b" by (auto simp: list_all_iff dest: set_takeWhileD)
  have e: "trim s = [] \<or> (\<not> isWhiteSpace (hd (trim s)) \<and> \<not> isWhiteSpace (last (trim s)))"
  proof (cases "trim s = []")
    case True
    then show ?thesis by simp
  next
    case False
    with t have ne: "dropWhile isWhiteSpace (rev ?s1) \<noteq> []" by simp
    from hd_dropWhile [OF ne] have "\<not> isWhiteSpace (hd (dropWhile isWhiteSpace (rev ?s1)))" .
    with ne t have l: "\<not> isWhiteSpace (last (trim s))" by (simp add: last_rev)
    from False s1 have n1: "?s1 \<noteq> []" by (metis append_is_Nil_conv)
    from False s1 have "hd ?s1 = hd (trim s)" by (metis hd_append2)
    with hd_dropWhile [OF n1] have "\<not> isWhiteSpace (hd (trim s))" by simp
    with l show ?thesis by simp
  qed
  from s a b e show ?thesis by blast
qed

subsection \<open>A mention inside a bracket group\<close>

lemma split_no_sep: "sep \<notin> set s \<Longrightarrow> split sep s = [s]"
  by (induction s) auto

lemma whitespace_not_tag: "isWhiteSpace c \<Longrightarrow> \<not> isTagChar c"
  by (auto simp: isWhiteSpace_def isTagChar_def)

lemma whitespace_not_special:
  "isWhiteSpace c \<Longrightarrow> c \<notin> {CHR ''['', CHR '']'', CHR ''@'', CHR ''#'', CHR '',''}"
  by (auto simp: isWhiteSpace_def)

lemma tag_not_special:
  "isTagChar c \<Longrightarrow> c \<notin> {CHR ''['', CHR '']'', CHR ''@'', CHR ''#'', CHR '',''}"
  by (auto simp: isTagChar_def)

lemma special_not_in:
  assumes "list_all P xs" and "\<And>c. P c \<Longrightarrow> c \<notin> S" and "x \<in> S"
  shows "x \<notin> set xs"
  using assms by (auto simp: list_all_iff)

lemma trim_padded:
  assumes "list_all isWhiteSpace ws1" and "list_all isWhiteSpace ws2"
    and "x \<noteq> []" and "\<not> isWhiteSpace (hd x)" and "\<not> isWhiteSpace (last x)"
  shows "trim (ws1 @ x @ ws2) = x"
proof -
  from assms(3) obtain h t where x: "x = h # t" by (cases x) auto
  with assms(4) have h: "\<not> isWhiteSpace h" by simp
  from assms(1) have "dropWhile isWhiteSpace (ws1 @ x @ ws2) = dropWhile isWhiteSpace (x @ ws2)"
    by (simp add: dropWhile_append2 list_all_iff)
  also from x h have "\<dots> = x @ ws2" by simp
  finally have 1: "dropWhile isWhiteSpace (ws1 @ x @ ws2) = x @ ws2" .
  from assms(3) have rx: "rev x = last x # rev (butlast x)"
    by (metis append_butlast_last_id rev.simps(2) rev_rev_ident rev_swap)
  from assms(2) have "dropWhile isWhiteSpace (rev ws2 @ rev x) = dropWhile isWhiteSpace (rev x)"
    using dropWhile_append2 [of "rev ws2" isWhiteSpace "rev x"] by (simp add: list_all_iff)
  also have "\<dots> = rev x"
  proof -
    from assms(5)
    have "dropWhile isWhiteSpace (last x # rev (butlast x)) = last x # rev (butlast x)"
      by simp
    then show ?thesis by (simp only: rx [symmetric])
  qed
  finally show ?thesis using 1 by (simp add: trim_def)
qed

lemma matchAt_mention_iff:
  assumes "p \<noteq> bracketPattern"
  shows "matchAt p s = Some (g, len) \<longleftrightarrow>
     (\<exists>rest. s = sigil p # g @ rest \<and> g \<noteq> [] \<and> list_all isTagChar g
            \<and> (rest = [] \<or> \<not> isTagChar (hd rest)) \<and> len = length g + 1)"
  using assms matchAt_at_iff [of s g len] matchAt_hash_iff [of s g len]
  by (cases p) simp_all

lemma mention_captures:
  assumes "p \<noteq> bracketPattern" and "sigil p \<notin> set a" and "sigil p \<notin> set b"
    and "n \<noteq> []" and "list_all isTagChar n" and "b = [] \<or> \<not> isTagChar (hd b)"
  shows "captures p (a @ sigil p # n @ b) = [n]"
proof -
  have "matchAt p (sigil p # n @ b) = Some (n, length n + 1)"
    using assms by (subst matchAt_mention_iff) auto
  from captures_match [OF this] assms(3)
  have "captures p (sigil p # n @ b) = [n]"
    by (simp add: captures_none)
  with captures_no_sigil [OF assms(2)] show ?thesis by simp
qed

lemma bracket_captures:
  assumes "CHR ''['' \<notin> set a" and "CHR ''['' \<notin> set b" and "g \<noteq> []" and "CHR '']'' \<notin> set g"
  shows "captures bracketPattern (a @ CHR ''['' # g @ CHR '']'' # b) = [g]"
proof -
  have "matchAt bracketPattern (CHR ''['' # g @ CHR '']'' # b) = Some (g, length g + 2)"
    using assms by (subst matchAt_bracket_iff) auto
  from captures_match [OF this] assms(2)
  have "captures bracketPattern (CHR ''['' # g @ CHR '']'' # b) = [g]"
    by (simp add: captures_none)
  with captures_no_sigil [of bracketPattern a] assms(1) show ?thesis by simp
qed

lemma extractTagsFromString_captures:
  "map tag_name (extractTagsFromString str) =
     concat (map (\<lambda>g. filter (\<lambda>name. name \<noteq> []) (map trim (split CHR '','' g)))
               (captures bracketPattern str))
     @ captures atPattern str @ captures hashPattern str"
proof -
  have "bracketNames = (\<lambda>m. filter (\<lambda>name. name \<noteq> []) (map trim (split CHR '','' (group1 m))))"
    by (rule ext) (simp add: bracketNames_def)
  then show ?thesis
    by (simp add: extractTagsFromString_names captures_def comp_def)
qed

lemma bracketed_mention_names:
  assumes c: "c = CHR ''@'' \<or> c = CHR ''#''"
    and n: "n \<noteq> []" "list_all isTagChar n"
    and w: "list_all isWhiteSpace ws1" "list_all isWhiteSpace ws2"
    and pre: "CHR ''['' \<notin> set pre" "CHR ''@'' \<notin> set pre" "CHR ''#'' \<notin> set pre"
    and post: "CHR ''['' \<notin> set post" "CHR ''@'' \<notin> set post" "CHR ''#'' \<notin> set post"
  shows "captures bracketPattern (pre @ ''['' @ ws1 @ c # n @ ws2 @ '']'' @ post) = [ws1 @ c # n @ ws2]"
    and "captures atPattern (pre @ ''['' @ ws1 @ c # n @ ws2 @ '']'' @ post)
           = (if c = CHR ''@'' then [n] else [])"
    and "captures hashPattern (pre @ ''['' @ ws1 @ c # n @ ws2 @ '']'' @ post)
           = (if c = CHR ''#'' then [n] else [])"
    and "map tag_name (extractTagsFromString (pre @ ''['' @ ws1 @ c # n @ ws2 @ '']'' @ post))
           = [c # n, n]"
proof -
  let ?mid = "ws1 @ c # n @ ws2"
  let ?str = "pre @ ''['' @ ws1 @ c # n @ ws2 @ '']'' @ post"
  note sp1 = special_not_in [OF w(1) whitespace_not_special]
  note sp2 = special_not_in [OF w(2) whitespace_not_special]
  note spn = special_not_in [OF n(2) tag_not_special]
  have mid: "CHR '']'' \<notin> set ?mid" "CHR '','' \<notin> set ?mid" "CHR ''['' \<notin> set ?mid"
    using c sp1 sp2 spn by auto
  have b: "captures bracketPattern (pre @ CHR ''['' # ?mid @ CHR '']'' # post) = [?mid]"
    using pre(1) post(1) mid(1) by (intro bracket_captures) auto
  then show br: "captures bracketPattern ?str = [?mid]" by simp
  have tail: "ws2 @ '']'' @ post = [] \<or> \<not> isTagChar (hd (ws2 @ '']'' @ post))"
  proof (cases ws2)
    case Nil
    then show ?thesis by (simp add: isTagChar_def)
  next
    case (Cons h t)
    with w(2) show ?thesis by (simp add: whitespace_not_tag)
  qed
  have m: "captures p ?str = [n]" if p: "p \<noteq> bracketPattern" "sigil p = c" for p
  proof -
    have 1: "sigil p \<notin> set (pre @ ''['' @ ws1)"
      using p c pre(2,3) sp1 by (cases p) auto
    have 2: "sigil p \<notin> set (ws2 @ '']'' @ post)"
      using p c post(2,3) sp2 by (cases p) auto
    from mention_captures [OF p(1) 1 2 n tail] p(2) show ?thesis by simp
  qed
  have o: "captures p ?str = []" if p: "p \<noteq> bracketPattern" "sigil p \<noteq> c" for p
  proof -
    have "sigil p \<notin> set ?str"
      using p c pre(2,3) post(2,3) sp1 sp2 spn by (cases p) auto
    then show ?thesis by (rule captures_none)
  qed
  show at: "captures atPattern ?str = (if c = CHR ''@'' then [n] else [])"
    using m [of atPattern] o [of atPattern] by auto
  show ha: "captures hashPattern ?str = (if c = CHR ''#'' then [n] else [])"
    using m [of hashPattern] o [of hashPattern] by auto
  have "\<not> isWhiteSpace c" using c by (auto simp: isWhiteSpace_def)
  moreover have "\<not> isWhiteSpace (last (c # n))"
  proof -
    from n(1) have "last n \<in> set n" by simp
    with n(2) have "isTagChar (last n)" by (simp add: list_all_iff)
    with whitespace_not_tag [of "last n"] n(1) show ?thesis by auto
  qed
  ultimately have "trim (ws1 @ (c # n) @ ws2) = c # n"
    using w by (intro trim_padded) auto
  then have tr: "trim ?mid = c # n" by simp
  from mid(2) have sp: "split CHR '','' ?mid = [?mid]" by (rule split_no_sep)
  have "map tag_name (extractTagsFromString ?str) =
      concat (map (\<lambda>g. filter (\<lambda>name. name \<noteq> []) (map trim (split CHR '','' g))) [?mid])
      @ (if c = CHR ''@'' then [n] else []) @ (if c = CHR ''#'' then [n] else [])"
    by (simp only: extractTagsFromString_captures br at ha)
  with c sp tr show "map tag_name (extractTagsFromString ?str) = [c # n, n]"
    by auto
qed

section \<open>Properties of the mapper\<close>

lemma status_passed_iff:
  "mapJestStatusToFernStatus s = ''passed'' \<longleftrightarrow> s = ''passed''"
  by (simp add: mapJestStatusToFernStatus_def)

lemma status_failed_iff:
  "mapJestStatusToFernStatus s = ''failed'' \<longleftrightarrow> s = ''failed''"
  by (simp add: mapJestStatusToFernStatus_def)

lemma mapJestTestToSpecRun_fields:
  assumes "mapJestTestToSpecRun test start sid n = Inr r"
  shows "spec_status r = mapJestStatusToFernStatus (status test)"
    and "spec_message r = extractFailureMessage test"
    and "spec_tags r = extractTagsFromTest test"
  using assms
  by (auto simp: mapJestTestToSpecRun_def Let_def split: sum.splits)

lemma default_tag_general:
  "collectTags test = [] \<Longrightarrow> extractTagsFromTest test = [\<lparr>tag_id = 2, tag_name = ''default''\<rparr>]"
  by (simp add: extractTagsFromTest_def dedupStep_def)

lemma two_tags:
  assumes "map tag_name (collectTags test) = [a, b]" and "a \<noteq> b"
  shows "extractTagsFromTest test = [\<lparr>tag_id = 1, tag_name = a\<rparr>, \<lparr>tag_id = 2, tag_name = b\<rparr>]"
proof -
  from assms(1) obtain x y where c: "collectTags test = [x, y]" "tag_name x = a" "tag_name y = b"
    by auto
  with assms(2) show ?thesis
    by (simp add: extractTagsFromTest_def dedupStep_def)
qed

subsection \<open>Removing duplicates\<close>

text \<open>
  The specification's wording of the removal of duplicates, to compare the loop of
  \<open>extractTagsFromTest\<close> with: the first occurrence of a name is kept and every later
  occurrence of it is dropped.
\<close>

fun dedupFirst :: "'a list \<Rightarrow> 'a list" where
  "dedupFirst [] = []"
| "dedupFirst (x # xs) = x # dedupFirst (filter (\<lambda>y. y \<noteq> x) xs)"

lemma set_dedupFirst: "set (dedupFirst xs) = set xs"
  by (induction xs rule: dedupFirst.induct) auto

lemma distinct_dedupFirst: "distinct (dedupFirst xs)"
  by (induction xs rule: dedupFirst.induct) (auto simp: set_dedupFirst)

lemma dedup_names:
  "map tag_name (uniqueTags (foldl dedupStep st tags)) =
     map tag_name (uniqueTags st)
     @ dedupFirst (filter (\<lambda>n. n \<notin> uniqueTagNames st) (map tag_name tags))"
proof (induction tags arbitrary: st)
  case Nil
  then show ?case by simp
next
  case (Cons t ts)
  show ?case
  proof (cases "tag_name t \<in> uniqueTagNames st")
    case True
    then have "dedupStep st t = st" by (simp add: dedupStep_def)
    with Cons.IH [of st] True show ?thesis by simp
  next
    case False
    have f: "filter (\<lambda>y. y \<noteq> tag_name t) (filter (\<lambda>n. n \<notin> uniqueTagNames st) (map tag_name ts))
          = filter (\<lambda>n. n \<notin> insert (tag_name t) (uniqueTagNames st)) (map tag_name ts)"
      by (simp add: conj_commute)
    from False Cons.IH [of "dedupStep st t"] f show ?thesis
      by (simp add: dedupStep_def)
  qed
qed

lemma dedup_ids:
  assumes "map tag_id (uniqueTags st) = map (\<lambda>i. k + int i) [0..<length (uniqueTags st)]"
    and "tagId st = k + int (length (uniqueTags st))"
  shows "map tag_id (uniqueTags (foldl dedupStep st tags))
           = map (\<lambda>i. k + int i) [0..<length (uniqueTags (foldl dedupStep st tags))]"
  using assms
proof (induction tags arbitrary: st)
  case Nil
  then show ?case by simp
next
  case (Cons t ts)
  show ?case
  proof (cases "tag_name t \<in> uniqueTagNames st")
    case True
    then have "dedupStep st t = st" by (simp add: dedupStep_def)
    with Cons show ?thesis by simp
  next
    case False
    let ?st = "dedupStep st t"
    from False Cons.prems
    have 1: "map tag_id (uniqueTags ?st) = map (\<lambda>i. k + int i) [0..<length (uniqueTags ?st)]"
      and 2: "tagId ?st = k + int (length (uniqueTags ?st))"
      by (simp_all add: dedupStep_def)
    from Cons.IH [OF 1 2] show ?thesis by simp
  qed
qed

lemma ids_from_one: "map (\<lambda>i. 1 + int i) [0..<n] = map int [1..<Suc n]"
  by (induction n) simp_all

lemma extractTagsFromTest_nonempty:
  assumes "collectTags test \<noteq> []"
  shows "map tag_name (extractTagsFromTest test) = dedupFirst (map tag_name (collectTags test))"
    and "map tag_id (extractTagsFromTest test) = map int [1..<Suc (length (extractTagsFromTest test))]"
proof -
  let ?st = "\<lparr>tagId = 1, uniqueTagNames = {}, uniqueTags = []\<rparr>"
  from assms have e: "extractTagsFromTest test = uniqueTags (foldl dedupStep ?st (collectTags test))"
    by (simp add: extractTagsFromTest_def)
  from dedup_names [of ?st "collectTags test"] e
  show "map tag_name (extractTagsFromTest test) = dedupFirst (map tag_name (collectTags test))"
    by simp
  have "map tag_id (uniqueTags (foldl dedupStep ?st (collectTags test)))
      = map (\<lambda>i. 1 + int i) [0..<length (uniqueTags (foldl dedupStep ?st (collectTags test)))]"
    by (rule dedup_ids) simp_all
  with e show "map tag_id (extractTagsFromTest test) = map int [1..<Suc (length (extractTagsFromTest test))]"
    by (simp add: ids_from_one)
qed

lemma extractTagsFromTest_distinct:
  "distinct (map tag_name (extractTagsFromTest test))"
proof (cases "collectTags test = []")
  case True
  then show ?thesis by (simp add: default_tag_general)
next
  case False
  from extractTagsFromTest_nonempty(1) [OF False] show ?thesis
    by (simp add: distinct_dedupFirst)
qed

section \<open>Example inputs\<close>

text \<open>The test of the unit tests of the mapper: no marker in its title or its ancestors.\<close>

definition plainTest :: JestTestResult where
  "plainTest =
     \<lparr>ancestorTitles = [''Math operations'', ''Addition''], duration = Some 50,
      failureDetails = [], failureMessages = [],
      fullName = ''Math operations Addition should add two numbers'',
      numPassingAsserts = 1, status = ''passed'', title = ''should add two numbers''\<rparr>"

text \<open>A skipped test that carries a failure message.\<close>

definition skippedWithMessage :: JestTestResult where
  "skippedWithMessage =
     \<lparr>ancestorTitles = [], duration = None, failureDetails = [], failureMessages = [''E1''],
      fullName = ''t'', numPassingAsserts = 0, status = ''skipped'', title = ''t''\<rparr>"

text \<open>A failed test with two failure messages.\<close>

definition failedTwice :: JestTestResult where
  "failedTwice =
     \<lparr>ancestorTitles = [], duration = None, failureDetails = [],
      failureMessages = [''E1'', ''E2''],
      fullName = ''t'', numPassingAsserts = 0, status = ''failed'', title = ''t''\<rparr>"

definition failedTwiceRun :: SpecRun where
  "failedTwiceRun =
     \<lparr>spec_id = 1, spec_suite_id = 1, spec_description = ''t'', spec_status = ''failed'',
      spec_message = ''E1'' @ newline @ ''E2'',
      spec_tags = [\<lparr>tag_id = 2, tag_name = ''default''\<rparr>],
      spec_start_time = 0, spec_end_time = 0\<rparr>"

text \<open>A test whose title is an at-mention inside a bracket group.\<close>

definition bracketedAt :: JestTestResult where
  "bracketedAt =
     \<lparr>ancestorTitles = [], duration = None, failureDetails = [], failureMessages = [],
      fullName = ''[@fast]'', numPassingAsserts = 0, status = ''passed'', title = ''[@fast]''\<rparr>"

text \<open>A test whose title and ancestor both carry \<open>@fast\<close>, and its mapping.\<close>

definition fastTwice :: JestTestResult where
  "fastTwice =
     \<lparr>ancestorTitles = [''Suite @fast #db''], duration = Some 5, failureDetails = [],
      failureMessages = [], fullName = ''Suite @fast #db adds [unit] @fast'',
      numPassingAsserts = 1, status = ''passed'', title = ''adds [unit] @fast''\<rparr>"

definition fastTwiceRun :: SpecRun where
  "fastTwiceRun =
     \<lparr>spec_id = 1, spec_suite_id = 1, spec_description = ''Suite @fast #db > adds [unit] @fast'',
      spec_status = ''passed'', spec_message = '''',
      spec_tags = [\<lparr>tag_id = 1, tag_name = ''unit''\<rparr>, \<lparr>tag_id = 2, tag_name = ''fast''\<rparr>,
                   \<lparr>tag_id = 3, tag_name = ''db''\<rparr>],
      spec_start_time = 1000, spec_end_time = 1005\<rparr>"

text \<open>A test whose title holds a padded hash-mention inside a bracket group, and its mapping.\<close>

definition bracketedHash :: JestTestResult where
  "bracketedHash =
     \<lparr>ancestorTitles = [''Suite''], duration = None, failureDetails = [], failureMessages = [],
      fullName = ''Suite runs [ #slow  ] ok'', numPassingAsserts = 0, status = ''passed'',
      title = ''runs [ #slow  ] ok''\<rparr>"

definition bracketedHashRun :: SpecRun where
  "bracketedHashRun =
     \<lparr>spec_id = 1, spec_suite_id = 1, spec_description = ''Suite > runs [ #slow  ] ok'',
      spec_status = ''passed'', spec_message = '''',
      spec_tags = [\<lparr>tag_id = 1, tag_name = ''#slow''\<rparr>, \<lparr>tag_id = 2, tag_name = ''slow''\<rparr>],
      spec_start_time = 0, spec_end_time = 0\<rparr>"

lemma fastTwice_run: "mapJestTestToSpecRun fastTwice 1000 1 1 = Inr fastTwiceRun"
  by code_simp

lemma fastTwice_candidates:
  "map tag_name (extractTagsFromString (title fastTwice)
      @ concat (map extractTagsFromString (ancestorTitles fastTwice)))
   = [''unit'', ''fast'', ''fast'', ''db'']"
  by code_simp

lemma failedTwice_run: "mapJestTestToSpecRun failedTwice 0 1 1 = Inr failedTwiceRun"
  by code_simp

lemma bracketedHash_run: "mapJestTestToSpecRun bracketedHash 0 1 1 = Inr bracketedHashRun"
  by code_simp

section \<open>The claims about the mapper\<close>

text \<open>
  C6. The status normalizer is a total function from arbitrary status strings into
  passed, failed, skipped, pending and unknown: passed gives passed, failed gives failed,
  each of skipped, pending and disabled gives skipped, todo gives pending, and every other
  string gives unknown. It has no error result.
\<close>

theorem status_normalizer_total:
  "mapJestStatusToFernStatus s \<in> {''passed'', ''failed'', ''skipped'', ''pending'', ''unknown''}
   \<and> mapJestStatusToFernStatus ''passed'' = ''passed''
   \<and> mapJestStatusToFernStatus ''failed'' = ''failed''
   \<and> mapJestStatusToFernStatus ''skipped'' = ''skipped''
   \<and> mapJestStatusToFernStatus ''pending'' = ''skipped''
   \<and> mapJestStatusToFernStatus ''disabled'' = ''skipped''
   \<and> mapJestStatusToFernStatus ''todo'' = ''pending''
   \<and> (s \<notin> {''passed'', ''failed'', ''skipped'', ''pending'', ''disabled'', ''todo''}
        \<longrightarrow> mapJestStatusToFernStatus s = ''unknown'')"
  by (simp add: mapJestStatusToFernStatus_def)

theorem status_normalizer_total_witness:
  "''flaky'' \<notin> {''passed'', ''failed'', ''skipped'', ''pending'', ''disabled'', ''todo''}
   \<and> mapJestStatusToFernStatus ''flaky'' = ''unknown''"
  using status_normalizer_total [of "''flaky''"] by simp

text \<open>
  C2, as the claim states it, fails: a test with status skipped that carries the failure
  message E1 is mapped to a SpecRun with status skipped and message E1, not the empty string.
\<close>

theorem message_skipped_counterexample:
  "map_sum id (\<lambda>r. (spec_status r, spec_message r))
     (mapJestTestToSpecRun skippedWithMessage 0 1 1) = Inr (''skipped'', ''E1'')
   \<and> ''E1'' \<noteq> ''''"
  by code_simp

text \<open>
  C2, amended. The message of the mapped SpecRun is the empty string when the normalized
  status is passed. For every other status, failed and skipped among them, it is the
  newline-joined \<open>failureMessages\<close> when there are any, otherwise the newline-joined messages
  of the \<open>failureDetails\<close> when there are any, and with neither it is the text
  \<open>Test failed\<close> when the status is failed and the empty string otherwise.
\<close>

theorem message_by_status:
  assumes "mapJestTestToSpecRun test start sid n = Inr r"
  shows "spec_message r =
     (if spec_status r = ''passed'' then ''''
      else if failureMessages test \<noteq> [] then join newline (failureMessages test)
      else if failureDetails test \<noteq> []
        then join newline (map detail_message (failureDetails test))
      else if spec_status r = ''failed'' then ''Test failed''
      else '''')"
  using mapJestTestToSpecRun_fields(1,2) [OF assms]
  by (simp add: extractFailureMessage_def status_passed_iff status_failed_iff)

theorem message_by_status_witness:
  "mapJestTestToSpecRun failedTwice 0 1 1 = Inr failedTwiceRun
   \<and> spec_status failedTwiceRun = ''failed''
   \<and> spec_message failedTwiceRun = join newline [''E1'', ''E2'']"
  using message_by_status [OF failedTwice_run] failedTwice_run
  by (simp add: failedTwiceRun_def failedTwice_def)

text \<open>
  C1 says that a test without markers gets the single tag named default with id 1.
  The code gives that tag id 2: pushing the default tag already takes id 1 from the counter,
  and the loop that removes duplicates numbers the tag again with the next value.
  Evaluated on the test of the unit tests, whose title and ancestors yield no candidate.
\<close>

theorem default_tag_id:
  "extractTagsFromString (title plainTest) = []
   \<and> concat (map extractTagsFromString (ancestorTitles plainTest)) = []
   \<and> map_sum id spec_tags (mapJestTestToSpecRun plainTest 0 1 1)
       = Inr [\<lparr>tag_id = 2, tag_name = ''default''\<rparr>]"
  by code_simp

text \<open>
  C7. On \<open>should work [unit] @fast #integration\<close> the tag extractor returns the names
  unit, fast, integration in that order. In general the candidate names are those of all
  bracket groups (the non-empty trimmed pieces between the commas of each interior), then
  the captures of all at-mentions, then those of all hash-mentions. Within each pattern the
  matches go from left to right without overlap, each one is a match of the pattern at its
  position, and no match is left out: a position where the pattern matches lies in a match
  that the loop visits. A bracket match is an opening bracket, a non-empty interior without
  closing bracket, and a closing bracket; an at- or hash-match is the sigil and the longest
  non-empty run of characters of the class; the class, the pieces and the trimming are as
  the specification says.
\<close>

theorem extractTagsFromString_order:
  "map tag_name (extractTagsFromString ''should work [unit] @fast #integration'')
     = [''unit'', ''fast'', ''integration'']
   \<and> map tag_name (extractTagsFromString ''#h-1 @X_y [ a , b,,c d ] [e]@z #k'')
     = [''a'', ''b'', ''c d'', ''e'', ''X_y'', ''z'', ''h-1'', ''k'']
   \<and> map tag_name (extractTagsFromString str) =
       concat (map (\<lambda>m. filter (\<lambda>name. name \<noteq> []) (map trim (split CHR '','' (group1 m))))
                 (execLoop bracketPattern str 0))
       @ map group1 (execLoop atPattern str 0)
       @ map group1 (execLoop hashPattern str 0)
   \<and> sorted_wrt (\<lambda>a b. lastIndex a \<le> match_index b) (execLoop p str 0)
   \<and> (\<forall>m \<in> set (execLoop p str 0).
         match_index m < lastIndex m \<and> lastIndex m \<le> length str
         \<and> matchAt p (drop (match_index m) str) = Some (group1 m, lastIndex m - match_index m))
   \<and> (\<forall>j \<le> length str. matchAt p (drop j str) \<noteq> None \<longrightarrow>
         (\<exists>m \<in> set (execLoop p str 0). match_index m \<le> j \<and> j < lastIndex m))
   \<and> (matchAt bracketPattern s = Some (g, len) \<longleftrightarrow>
         (\<exists>rest. s = CHR ''['' # g @ CHR '']'' # rest \<and> g \<noteq> [] \<and> CHR '']'' \<notin> set g
                \<and> len = length g + 2))
   \<and> (matchAt atPattern s = Some (g, len) \<longleftrightarrow>
         (\<exists>rest. s = CHR ''@'' # g @ rest \<and> g \<noteq> [] \<and> list_all isTagChar g
                \<and> (rest = [] \<or> \<not> isTagChar (hd rest)) \<and> len = length g + 1))
   \<and> (matchAt hashPattern s = Some (g, len) \<longleftrightarrow>
         (\<exists>rest. s = CHR ''#'' # g @ rest \<and> g \<noteq> [] \<and> list_all isTagChar g
                \<and> (rest = [] \<or> \<not> isTagChar (hd rest)) \<and> len = length g + 1))
   \<and> (isTagChar c \<longleftrightarrow>
         c \<in> set ''abcdefghijklmnopqrstuvwxyzABCDEFGHIJKLMNOPQRSTUVWXYZ0123456789_-'')
   \<and> join '','' (split CHR '','' s) = s
   \<and> list_all (\<lambda>q. CHR '','' \<notin> set q) (split CHR '','' s)
   \<and> (\<exists>a b. s = a @ trim s @ b \<and> list_all isWhiteSpace a \<and> list_all isWhiteSpace b
         \<and> (trim s = [] \<or> (\<not> isWhiteSpace (hd (trim s)) \<and> \<not> isWhiteSpace (last (trim s)))))"
proof (intro conjI ballI allI impI)
  show "map tag_name (extractTagsFromString ''should work [unit] @fast #integration'')
     = [''unit'', ''fast'', ''integration'']"
    by code_simp
  show "map tag_name (extractTagsFromString ''#h-1 @X_y [ a , b,,c d ] [e]@z #k'')
     = [''a'', ''b'', ''c d'', ''e'', ''X_y'', ''z'', ''h-1'', ''k'']"
    by code_simp
  have "bracketNames = (\<lambda>m. filter (\<lambda>name. name \<noteq> []) (map trim (split CHR '','' (group1 m))))"
    by (rule ext) (simp add: bracketNames_def)
  with extractTagsFromString_names [of str]
  show "map tag_name (extractTagsFromString str) =
       concat (map (\<lambda>m. filter (\<lambda>name. name \<noteq> []) (map trim (split CHR '','' (group1 m))))
                 (execLoop bracketPattern str 0))
       @ map group1 (execLoop atPattern str 0)
       @ map group1 (execLoop hashPattern str 0)"
    by simp
  show "sorted_wrt (\<lambda>a b. lastIndex a \<le> match_index b) (execLoop p str 0)"
    by (rule execLoop_sorted)
  show "matchAt bracketPattern s = Some (g, len) \<longleftrightarrow>
         (\<exists>rest. s = CHR ''['' # g @ CHR '']'' # rest \<and> g \<noteq> [] \<and> CHR '']'' \<notin> set g
                \<and> len = length g + 2)"
    by (rule matchAt_bracket_iff)
  show "matchAt atPattern s = Some (g, len) \<longleftrightarrow>
         (\<exists>rest. s = CHR ''@'' # g @ rest \<and> g \<noteq> [] \<and> list_all isTagChar g
                \<and> (rest = [] \<or> \<not> isTagChar (hd rest)) \<and> len = length g + 1)"
    by (rule matchAt_at_iff)
  show "matchAt hashPattern s = Some (g, len) \<longleftrightarrow>
         (\<exists>rest. s = CHR ''#'' # g @ rest \<and> g \<noteq> [] \<and> list_all isTagChar g
                \<and> (rest = [] \<or> \<not> isTagChar (hd rest)) \<and> len = length g + 1)"
    by (rule matchAt_hash_iff)
  show "isTagChar c \<longleftrightarrow>
         c \<in> set ''abcdefghijklmnopqrstuvwxyzABCDEFGHIJKLMNOPQRSTUVWXYZ0123456789_-''"
    using isTagChar_iff [of c] by (simp only: tagChars_def)
  show "join '','' (split CHR '','' s) = s" by (rule split_join)
  show "list_all (\<lambda>q. CHR '','' \<notin> set q) (split CHR '','' s)" by (rule split_pieces)
  show "\<exists>a b. s = a @ trim s @ b \<and> list_all isWhiteSpace a \<and> list_all isWhiteSpace b
         \<and> (trim s = [] \<or> (\<not> isWhiteSpace (hd (trim s)) \<and> \<not> isWhiteSpace (last (trim s))))"
    by (rule trim_spec)
next
  fix m
  assume m: "m \<in> set (execLoop p str 0)"
  from execLoop_bounds [OF m] show "match_index m < lastIndex m" by simp
  from execLoop_bounds [OF m] show "lastIndex m \<le> length str" by simp
  from execLoop_match [OF m]
  show "matchAt p (drop (match_index m) str) = Some (group1 m, lastIndex m - match_index m)" .
next
  fix j
  assume "j \<le> length str" and "matchAt p (drop j str) \<noteq> None"
  then show "\<exists>m \<in> set (execLoop p str 0). match_index m \<le> j \<and> j < lastIndex m"
    by (intro execLoop_complete) simp_all
qed

theorem extractTagsFromString_order_witness:
  "execLoop atPattern ''a @x #y @z'' 0
     = [\<lparr>match_index = 2, group1 = ''x'', lastIndex = 4\<rparr>,
        \<lparr>match_index = 8, group1 = ''z'', lastIndex = 10\<rparr>]
   \<and> map tag_name (extractTagsFromString ''a @x #y @z'') = [''x'', ''z'', ''y'']
   \<and> matchAt atPattern (drop 8 ''a @x #y @z'') = Some (''z'', 2)
   \<and> (8::nat) \<le> length ''a @x #y @z''
   \<and> (\<exists>m \<in> set (execLoop atPattern ''a @x #y @z'' 0). match_index m \<le> 8 \<and> 8 < lastIndex m)"
proof -
  have e: "execLoop atPattern ''a @x #y @z'' 0
     = [\<lparr>match_index = 2, group1 = ''x'', lastIndex = 4\<rparr>,
        \<lparr>match_index = 8, group1 = ''z'', lastIndex = 10\<rparr>]"
    by code_simp
  have n: "map tag_name (extractTagsFromString ''a @x #y @z'') = [''x'', ''z'', ''y'']"
    by code_simp
  note t = extractTagsFromString_order [of "''a @x #y @z''" atPattern]
  from t [THEN conjunct2, THEN conjunct2, THEN conjunct2, THEN conjunct2, THEN conjunct1] e
  have a: "matchAt atPattern (drop 8 ''a @x #y @z'') = Some (''z'', 2)"
    by simp
  have l: "(8::nat) \<le> length ''a @x #y @z''" by simp
  note t [THEN conjunct2, THEN conjunct2, THEN conjunct2, THEN conjunct2, THEN conjunct2,
      THEN conjunct1]
  with l a have c: "\<exists>m \<in> set (execLoop atPattern ''a @x #y @z'' 0). match_index m \<le> 8 \<and> 8 < lastIndex m"
    by (metis option.distinct(1))
  from e n a l c show ?thesis by (intro conjI)
qed

text \<open>
  C10. The three patterns run on the same string independently of each other. On the title
  \<open>[@fast]\<close> the bracket pattern yields the name \<open>@fast\<close>, with its sigil, and the
  at-pattern yields the name \<open>fast\<close>; the two names differ, so both tags are in the mapped
  SpecRun. For every string, each capture of the at- and of the hash-pattern is among the
  candidates, wherever it lies with respect to the bracket groups. In general, for a title
  that holds one bracket group whose interior is an at- or hash-mention with white space
  around it, and no other marker: the bracket pattern yields the trimmed interior, sigil
  included, the pattern of the sigil yields the bare name, the two names differ, and the
  mapped SpecRun has both tags, with ids 1 and 2.
\<close>

theorem bracketed_at_mention:
  "map group1 (execLoop bracketPattern ''[@fast]'' 0) = [''@fast'']
   \<and> map group1 (execLoop atPattern ''[@fast]'' 0) = [''fast'']
   \<and> map tag_name (extractTagsFromString ''[@fast]'') = [''@fast'', ''fast'']
   \<and> map_sum id spec_tags (mapJestTestToSpecRun bracketedAt 0 1 1)
       = Inr [\<lparr>tag_id = 1, tag_name = ''@fast''\<rparr>, \<lparr>tag_id = 2, tag_name = ''fast''\<rparr>]
   \<and> set (map group1 (execLoop atPattern str 0) @ map group1 (execLoop hashPattern str 0))
       \<subseteq> set (map tag_name (extractTagsFromString str))
   \<and> ((c = CHR ''@'' \<or> c = CHR ''#'') \<and> n \<noteq> [] \<and> list_all isTagChar n
        \<and> list_all isWhiteSpace ws1 \<and> list_all isWhiteSpace ws2
        \<and> set pre \<inter> {CHR ''['', CHR ''@'', CHR ''#''} = {}
        \<and> set post \<inter> {CHR ''['', CHR ''@'', CHR ''#''} = {}
        \<and> title test = pre @ ''['' @ ws1 @ c # n @ ws2 @ '']'' @ post
        \<and> concat (map extractTagsFromString (ancestorTitles test)) = []
        \<and> mapJestTestToSpecRun test start sid k = Inr r
      \<longrightarrow> map group1 (execLoop bracketPattern (title test) 0) = [ws1 @ c # n @ ws2]
          \<and> map group1 (execLoop atPattern (title test) 0) = (if c = CHR ''@'' then [n] else [])
          \<and> map group1 (execLoop hashPattern (title test) 0) = (if c = CHR ''#'' then [n] else [])
          \<and> map tag_name (extractTagsFromString (title test)) = [c # n, n]
          \<and> c # n \<noteq> n
          \<and> spec_tags r = [\<lparr>tag_id = 1, tag_name = c # n\<rparr>, \<lparr>tag_id = 2, tag_name = n\<rparr>])"
proof (intro conjI impI)
  show "map group1 (execLoop bracketPattern ''[@fast]'' 0) = [''@fast'']" by code_simp
  show "map group1 (execLoop atPattern ''[@fast]'' 0) = [''fast'']" by code_simp
  show "map tag_name (extractTagsFromString ''[@fast]'') = [''@fast'', ''fast'']" by code_simp
  show "map_sum id spec_tags (mapJestTestToSpecRun bracketedAt 0 1 1)
       = Inr [\<lparr>tag_id = 1, tag_name = ''@fast''\<rparr>, \<lparr>tag_id = 2, tag_name = ''fast''\<rparr>]"
    by code_simp
  show "set (map group1 (execLoop atPattern str 0) @ map group1 (execLoop hashPattern str 0))
       \<subseteq> set (map tag_name (extractTagsFromString str))"
    by (simp only: extractTagsFromString_names) auto
next
  assume h: "(c = CHR ''@'' \<or> c = CHR ''#'') \<and> n \<noteq> [] \<and> list_all isTagChar n
        \<and> list_all isWhiteSpace ws1 \<and> list_all isWhiteSpace ws2
        \<and> set pre \<inter> {CHR ''['', CHR ''@'', CHR ''#''} = {}
        \<and> set post \<inter> {CHR ''['', CHR ''@'', CHR ''#''} = {}
        \<and> title test = pre @ ''['' @ ws1 @ c # n @ ws2 @ '']'' @ post
        \<and> concat (map extractTagsFromString (ancestorTitles test)) = []
        \<and> mapJestTestToSpecRun test start sid k = Inr r"
  then have c: "c = CHR ''@'' \<or> c = CHR ''#''" and n: "n \<noteq> []" "list_all isTagChar n"
    and w: "list_all isWhiteSpace ws1" "list_all isWhiteSpace ws2"
    and pre: "CHR ''['' \<notin> set pre" "CHR ''@'' \<notin> set pre" "CHR ''#'' \<notin> set pre"
    and post: "CHR ''['' \<notin> set post" "CHR ''@'' \<notin> set post" "CHR ''#'' \<notin> set post"
    and t: "title test = pre @ ''['' @ ws1 @ c # n @ ws2 @ '']'' @ post"
    and a: "concat (map extractTagsFromString (ancestorTitles test)) = []"
    and r: "mapJestTestToSpecRun test start sid k = Inr r"
    by auto
  note f = bracketed_mention_names [OF c n w pre post]
  from f(1) t show "map group1 (execLoop bracketPattern (title test) 0) = [ws1 @ c # n @ ws2]"
    by (simp only: captures_def)
  from f(2) t
  show "map group1 (execLoop atPattern (title test) 0) = (if c = CHR ''@'' then [n] else [])"
    by (simp only: captures_def)
  from f(3) t
  show "map group1 (execLoop hashPattern (title test) 0) = (if c = CHR ''#'' then [n] else [])"
    by (simp only: captures_def)
  from f(4) t show names: "map tag_name (extractTagsFromString (title test)) = [c # n, n]"
    by (simp only:)
  show d: "c # n \<noteq> n" by simp
  from names a have "map tag_name (collectTags test) = [c # n, n]"
    by (simp add: collectTags_eq)
  from two_tags [OF this d] mapJestTestToSpecRun_fields(3) [OF r]
  show "spec_tags r = [\<lparr>tag_id = 1, tag_name = c # n\<rparr>, \<lparr>tag_id = 2, tag_name = n\<rparr>]"
    by simp
qed

theorem bracketed_at_mention_witness:
  "mapJestTestToSpecRun bracketedHash 0 1 1 = Inr bracketedHashRun
   \<and> title bracketedHash = ''runs '' @ ''['' @ '' '' @ CHR ''#'' # ''slow'' @ ''  '' @ '']'' @ '' ok''
   \<and> map group1 (execLoop bracketPattern (title bracketedHash) 0) = ['' #slow  '']
   \<and> map group1 (execLoop atPattern (title bracketedHash) 0) = []
   \<and> map group1 (execLoop hashPattern (title bracketedHash) 0) = [''slow'']
   \<and> map tag_name (extractTagsFromString (title bracketedHash)) = [''#slow'', ''slow'']
   \<and> spec_tags bracketedHashRun
       = [\<lparr>tag_id = 1, tag_name = ''#slow''\<rparr>, \<lparr>tag_id = 2, tag_name = ''slow''\<rparr>]"
proof -
  have t: "title bracketedHash = ''runs '' @ ''['' @ '' '' @ CHR ''#'' # ''slow'' @ ''  '' @ '']'' @ '' ok''"
    by (simp add: bracketedHash_def)
  have a: "concat (map extractTagsFromString (ancestorTitles bracketedHash)) = []"
    by code_simp
  have n: "list_all isTagChar ''slow''" by code_simp
  have w: "list_all isWhiteSpace '' ''" "list_all isWhiteSpace ''  ''" by code_simp+
  have p: "set ''runs '' \<inter> {CHR ''['', CHR ''@'', CHR ''#''} = {}"
    "set '' ok'' \<inter> {CHR ''['', CHR ''@'', CHR ''#''} = {}" by simp_all
  from bracketed_at_mention [of undefined "CHR ''#''" "''slow''" "'' ''" "''  ''" "''runs ''" "'' ok''"
      bracketedHash 0 1 1 bracketedHashRun, THEN conjunct2, THEN conjunct2, THEN conjunct2,
      THEN conjunct2, THEN conjunct2]
    t a n w p bracketedHash_run
  have "map group1 (execLoop bracketPattern (title bracketedHash) 0) = ['' '' @ CHR ''#'' # ''slow'' @ ''  '']
          \<and> map group1 (execLoop atPattern (title bracketedHash) 0) = (if CHR ''#'' = CHR ''@'' then [''slow''] else [])
          \<and> map group1 (execLoop hashPattern (title bracketedHash) 0) = (if CHR ''#'' = CHR ''#'' then [''slow''] else [])
          \<and> map tag_name (extractTagsFromString (title bracketedHash)) = [CHR ''#'' # ''slow'', ''slow'']
          \<and> CHR ''#'' # ''slow'' \<noteq> ''slow''
          \<and> spec_tags bracketedHashRun = [\<lparr>tag_id = 1, tag_name = CHR ''#'' # ''slow''\<rparr>, \<lparr>tag_id = 2, tag_name = ''slow''\<rparr>]"
    by blast
  with t bracketedHash_run show ?thesis by simp
qed

text \<open>
  C5. The tags of a mapped SpecRun have pairwise different names. When the title and the
  ancestor titles produce candidates, the names of the tags are the candidates' names with
  the first occurrence of each name kept and the later ones dropped, and the tags carry the
  ids 1, 2, 3, ... in their order.
\<close>

theorem tags_deduplicated:
  assumes "mapJestTestToSpecRun test start sid n = Inr r"
  shows "distinct (map tag_name (spec_tags r))
    \<and> (extractTagsFromString (title test)
          @ concat (map extractTagsFromString (ancestorTitles test)) \<noteq> []
        \<longrightarrow> map tag_name (spec_tags r)
              = dedupFirst (map tag_name (extractTagsFromString (title test)
                  @ concat (map extractTagsFromString (ancestorTitles test))))
            \<and> map tag_id (spec_tags r) = map int [1..<Suc (length (spec_tags r))])"
  using mapJestTestToSpecRun_fields(3) [OF assms] extractTagsFromTest_distinct [of test]
    extractTagsFromTest_nonempty [of test]
  by (simp add: collectTags_eq)

theorem tags_deduplicated_witness:
  "mapJestTestToSpecRun fastTwice 1000 1 1 = Inr fastTwiceRun
   \<and> map tag_name (extractTagsFromString (title fastTwice)
         @ concat (map extractTagsFromString (ancestorTitles fastTwice)))
       = [''unit'', ''fast'', ''fast'', ''db'']
   \<and> distinct (map tag_name (spec_tags fastTwiceRun))
   \<and> map tag_name (spec_tags fastTwiceRun) = [''unit'', ''fast'', ''db'']
   \<and> map tag_id (spec_tags fastTwiceRun) = [1, 2, 3]"
proof -
  let ?c = "extractTagsFromString (title fastTwice)
          @ concat (map extractTagsFromString (ancestorTitles fastTwice))"
  have c: "?c \<noteq> []"
  proof
    assume "?c = []"
    then have "map tag_name ?c = []" by (simp only: list.map)
    with fastTwice_candidates show False by (simp only: list.distinct)
  qed
  from tags_deduplicated [OF fastTwice_run] c fastTwice_run fastTwice_candidates
  show ?thesis by (simp add: fastTwiceRun_def)
qed

section \<open>The claim about the summary\<close>

text \<open>All SpecRuns of a run, suite by suite.\<close>

definition allSpecs :: "TestRun \<Rightarrow> SpecRun list" where
  "allSpecs testRun = concat (map spec_runs (suite_runs testRun))"

text \<open>A run with one passed, one pending and one unknown spec; a todo test.\<close>

definition specWithStatus :: "int \<Rightarrow> string \<Rightarrow> SpecRun" where
  "specWithStatus n st =
     \<lparr>spec_id = n, spec_suite_id = 1, spec_description = ''t'', spec_status = st,
      spec_message = '''', spec_tags = [\<lparr>tag_id = 1, tag_name = ''unit''\<rparr>],
      spec_start_time = 0, spec_end_time = 0\<rparr>"

definition mixedRun :: TestRun where
  "mixedRun =
     \<lparr>run_id = 1, test_project_name = ''demo'', test_project_id = ''demo-id'', test_seed = 1,
      run_start_time = 0, run_end_time = 0, git_branch = ''main'',
      git_sha = ''abc123def456789'', build_trigger_actor = ''dev'', build_url = '''',
      client_type = ''fern-jest-client'',
      suite_runs =
        [\<lparr>suite_id = 1, suite_test_run_id = 1, suite_name = ''calc'',
          suite_start_time = 0, suite_end_time = 0,
          spec_runs = [specWithStatus 1 ''passed'', specWithStatus 2 ''pending'',
                       specWithStatus 3 ''unknown'']\<rparr>]\<rparr>"

definition todoTest :: JestTestResult where
  "todoTest =
     \<lparr>ancestorTitles = [], duration = None, failureDetails = [], failureMessages = [],
      fullName = ''t [unit]'', numPassingAsserts = 0, status = ''todo'', title = ''t [unit]''\<rparr>"

lemma foldl_sum:
  "foldl (\<lambda>sum suite. sum + f suite) a xs = a + sum_list (map f xs)"
  for f :: "'a \<Rightarrow> nat"
  by (induction xs arbitrary: a) simp_all

lemma totalSpecs_eq: "totalSpecs testRun = length (allSpecs testRun)"
  by (simp add: totalSpecs_def allSpecs_def foldl_sum length_concat comp_def)

lemma countStatus_eq:
  "countStatus st testRun = length (filter (\<lambda>spec. spec_status spec = st) (allSpecs testRun))"
  by (simp add: countStatus_def allSpecs_def foldl_sum length_concat filter_concat comp_def)

lemma status_partition:
  "length xs =
     length (filter (\<lambda>spec. spec_status spec = ''passed'') xs)
     + length (filter (\<lambda>spec. spec_status spec = ''failed'') xs)
     + length (filter (\<lambda>spec. spec_status spec = ''skipped'') xs)
     + length (filter (\<lambda>spec. spec_status spec \<notin> {''passed'', ''failed'', ''skipped''}) xs)"
  by (induction xs) auto

text \<open>Decimal digits, and the number a decimal text denotes.\<close>

definition isDigit :: "char \<Rightarrow> bool" where
  "isDigit c = (48 \<le> (of_char c :: nat) \<and> (of_char c :: nat) \<le> 57)"

definition readNat :: "string \<Rightarrow> nat" where
  "readNat s = foldl (\<lambda>a c. 10 * a + (of_char c - 48)) 0 s"

lemma digit_char:
  fixes d :: nat
  assumes "d < 10"
  shows "isDigit (char_of (48 + d))" and "of_char (char_of (48 + d)) = 48 + d"
    and "char_of (48 + d) = CHR ''0'' \<longleftrightarrow> d = 0"
proof -
  from assms show o: "of_char (char_of (48 + d)) = 48 + d" by simp
  with assms show "isDigit (char_of (48 + d))" by (simp add: isDigit_def)
  have z: "char_of (48::nat) = CHR ''0''"
    using char_of_char [of "CHR ''0''", where ?'a = nat] by simp
  show "char_of (48 + d) = CHR ''0'' \<longleftrightarrow> d = 0"
  proof
    assume "char_of (48 + d) = CHR ''0''"
    then have "(of_char (char_of (48 + d)) :: nat) = of_char CHR ''0''" by (simp only:)
    with o show "d = 0" by simp
  next
    assume "d = 0"
    with z show "char_of (48 + d) = CHR ''0''" by simp
  qed
qed

lemma showNat_not_Nil: "showNat n \<noteq> []"
  by (subst showNat.simps) simp

lemma showNat_digits: "list_all isDigit (showNat n)"
proof (induction n rule: showNat.induct)
  case (1 n)
  show ?case
  proof (cases "n < 10")
    case True
    then show ?thesis by (subst showNat.simps) (simp add: digit_char)
  next
    case False
    with "1.IH" show ?thesis by (subst showNat.simps) (simp add: digit_char)
  qed
qed

lemma readNat_showNat: "readNat (showNat n) = n"
proof (induction n rule: showNat.induct)
  case (1 n)
  show ?case
  proof (cases "n < 10")
    case True
    then show ?thesis by (subst showNat.simps) (simp add: readNat_def digit_char)
  next
    case False
    with "1.IH" show ?thesis
      by (subst showNat.simps) (simp add: readNat_def digit_char)
  qed
qed

lemma showNat_leading: "hd (showNat n) = CHR ''0'' \<longleftrightarrow> n = 0"
proof (induction n rule: showNat.induct)
  case (1 n)
  show ?case
  proof (cases "n < 10")
    case True
    then show ?thesis by (subst showNat.simps) (simp add: digit_char)
  next
    case False
    with "1.IH" show ?thesis
      by (subst showNat.simps) (simp add: showNat_not_Nil)
  qed
qed

text \<open>
  A run of two suites with twelve specs: one passed, three failed, two skipped, and six
  with another status.
\<close>

definition countedRun :: TestRun where
  "countedRun =
     \<lparr>run_id = 1, test_project_name = ''demo'', test_project_id = ''demo-id'', test_seed = 1,
      run_start_time = 0, run_end_time = 0, git_branch = ''main'',
      git_sha = ''abc123def456789'', build_trigger_actor = ''dev'', build_url = '''',
      client_type = ''fern-jest-client'',
      suite_runs =
        [\<lparr>suite_id = 1, suite_test_run_id = 1, suite_name = ''calc'',
          suite_start_time = 0, suite_end_time = 0,
          spec_runs = [specWithStatus 1 ''failed'', specWithStatus 2 ''pending'',
                       specWithStatus 3 ''skipped'', specWithStatus 4 ''unknown'',
                       specWithStatus 5 ''failed'', specWithStatus 6 ''pending'',
                       specWithStatus 7 ''Passed'']\<rparr>,
         \<lparr>suite_id = 2, suite_test_run_id = 1, suite_name = ''util'',
          suite_start_time = 0, suite_end_time = 0,
          spec_runs = [specWithStatus 1 ''passed'', specWithStatus 2 ''failed'',
                       specWithStatus 3 ''skipped'', specWithStatus 4 ''pending'',
                       specWithStatus 5 ''unknown'']\<rparr>]\<rparr>"

lemma join_newline6:
  "join newline [a, b, c, d, e, f]
     = a @ [CHR 0x0A] @ b @ [CHR 0x0A] @ c @ [CHR 0x0A] @ d @ [CHR 0x0A] @ e @ [CHR 0x0A] @ f"
  by (simp add: newline_def)

text \<open>
  C9. For every run the summary is the six lines of the source, and its last line gives, in
  decimal, the number of all SpecRuns as the total and the numbers of SpecRuns whose status
  is exactly passed, failed and skipped. A SpecRun with any other status, such as pending
  (what a todo test is mapped to) or unknown, is in the total and in none of the three
  counts, so that the three counts can fall short of the total: the run \<open>mixedRun\<close> is
  logged as 3 total, 1 passed, 0 failed, 0 skipped.
\<close>

theorem summary_counts:
  "generateTestSummary testRun =
       ''Fern Test Run Summary:'' @ [CHR 0x0A]
       @ ''  Project: '' @ test_project_id testRun @ [CHR 0x0A]
       @ ''  Branch: '' @ git_branch testRun @ [CHR 0x0A]
       @ ''  Commit: '' @ take 8 (git_sha testRun) @ [CHR 0x0A]
       @ ''  Suites: '' @ showNat (length (suite_runs testRun)) @ [CHR 0x0A]
       @ ''  Tests: '' @ showNat (length (allSpecs testRun)) @ '' total, ''
       @ showNat (length (filter (\<lambda>spec. spec_status spec = ''passed'') (allSpecs testRun)))
       @ '' passed, ''
       @ showNat (length (filter (\<lambda>spec. spec_status spec = ''failed'') (allSpecs testRun)))
       @ '' failed, ''
       @ showNat (length (filter (\<lambda>spec. spec_status spec = ''skipped'') (allSpecs testRun)))
       @ '' skipped''
   \<and> allSpecs testRun = concat (map spec_runs (suite_runs testRun))
   \<and> list_all isDigit (showNat n) \<and> readNat (showNat n) = n
   \<and> (hd (showNat n) = CHR ''0'' \<longleftrightarrow> n = 0)
   \<and> totalSpecs testRun = length (allSpecs testRun)
   \<and> passedSpecs testRun
       = length (filter (\<lambda>spec. spec_status spec = ''passed'') (allSpecs testRun))
   \<and> failedSpecs testRun
       = length (filter (\<lambda>spec. spec_status spec = ''failed'') (allSpecs testRun))
   \<and> skippedSpecs testRun
       = length (filter (\<lambda>spec. spec_status spec = ''skipped'') (allSpecs testRun))
   \<and> totalSpecs testRun
       = passedSpecs testRun + failedSpecs testRun + skippedSpecs testRun
         + length (filter (\<lambda>spec. spec_status spec \<notin> {''passed'', ''failed'', ''skipped''})
             (allSpecs testRun))
   \<and> map_sum id spec_status (mapJestTestToSpecRun todoTest 0 1 2) = Inr ''pending''
   \<and> totalSpecs mixedRun = 3
   \<and> passedSpecs mixedRun + failedSpecs mixedRun + skippedSpecs mixedRun = 1
   \<and> generateTestSummary mixedRun
       = join newline
           [''Fern Test Run Summary:'', ''  Project: demo-id'', ''  Branch: main'',
            ''  Commit: abc123de'', ''  Suites: 1'',
            ''  Tests: 3 total, 1 passed, 0 failed, 0 skipped'']
   \<and> generateTestSummary countedRun
       = ''Fern Test Run Summary:'' @ [CHR 0x0A] @ ''  Project: demo-id'' @ [CHR 0x0A]
         @ ''  Branch: main'' @ [CHR 0x0A] @ ''  Commit: abc123de'' @ [CHR 0x0A]
         @ ''  Suites: 2'' @ [CHR 0x0A]
         @ ''  Tests: 12 total, 1 passed, 3 failed, 2 skipped''"
proof (intro conjI)
  show "generateTestSummary testRun =
       ''Fern Test Run Summary:'' @ [CHR 0x0A]
       @ ''  Project: '' @ test_project_id testRun @ [CHR 0x0A]
       @ ''  Branch: '' @ git_branch testRun @ [CHR 0x0A]
       @ ''  Commit: '' @ take 8 (git_sha testRun) @ [CHR 0x0A]
       @ ''  Suites: '' @ showNat (length (suite_runs testRun)) @ [CHR 0x0A]
       @ ''  Tests: '' @ showNat (length (allSpecs testRun)) @ '' total, ''
       @ showNat (length (filter (\<lambda>spec. spec_status spec = ''passed'') (allSpecs testRun)))
       @ '' passed, ''
       @ showNat (length (filter (\<lambda>spec. spec_status spec = ''failed'') (allSpecs testRun)))
       @ '' failed, ''
       @ showNat (length (filter (\<lambda>spec. spec_status spec = ''skipped'') (allSpecs testRun)))
       @ '' skipped''"
    unfolding generateTestSummary_def join_newline6
    by (simp add: totalSpecs_eq passedSpecs_def failedSpecs_def skippedSpecs_def countStatus_eq)
  show "allSpecs testRun = concat (map spec_runs (suite_runs testRun))"
    by (rule allSpecs_def)
  show "list_all isDigit (showNat n)" by (rule showNat_digits)
  show "readNat (showNat n) = n" by (rule readNat_showNat)
  show "hd (showNat n) = CHR ''0'' \<longleftrightarrow> n = 0" by (rule showNat_leading)
  show "totalSpecs testRun = length (allSpecs testRun)" by (rule totalSpecs_eq)
  show "passedSpecs testRun
       = length (filter (\<lambda>spec. spec_status spec = ''passed'') (allSpecs testRun))"
    by (simp add: passedSpecs_def countStatus_eq)
  show "failedSpecs testRun
       = length (filter (\<lambda>spec. spec_status spec = ''failed'') (allSpecs testRun))"
    by (simp add: failedSpecs_def countStatus_eq)
  show "skippedSpecs testRun
       = length (filter (\<lambda>spec. spec_status spec = ''skipped'') (allSpecs testRun))"
    by (simp add: skippedSpecs_def countStatus_eq)
  show "totalSpecs testRun
       = passedSpecs testRun + failedSpecs testRun + skippedSpecs testRun
         + length (filter (\<lambda>spec. spec_status spec \<notin> {''passed'', ''failed'', ''skipped''})
             (allSpecs testRun))"
    using status_partition [of "allSpecs testRun"]
    by (simp add: totalSpecs_eq passedSpecs_def failedSpecs_def skippedSpecs_def countStatus_eq)
  show "map_sum id spec_status (mapJestTestToSpecRun todoTest 0 1 2) = Inr ''pending''"
    by code_simp
  show "totalSpecs mixedRun = 3" by code_simp
  show "passedSpecs mixedRun + failedSpecs mixedRun + skippedSpecs mixedRun = 1" by code_simp
  show "generateTestSummary mixedRun
       = join newline
           [''Fern Test Run Summary:'', ''  Project: demo-id'', ''  Branch: main'',
            ''  Commit: abc123de'', ''  Suites: 1'',
            ''  Tests: 3 total, 1 passed, 0 failed, 0 skipped'']"
    by code_simp
  show "generateTestSummary countedRun
       = ''Fern Test Run Summary:'' @ [CHR 0x0A] @ ''  Project: demo-id'' @ [CHR 0x0A]
         @ ''  Branch: main'' @ [CHR 0x0A] @ ''  Commit: abc123de'' @ [CHR 0x0A]
         @ ''  Suites: 2'' @ [CHR 0x0A]
         @ ''  Tests: 12 total, 1 passed, 3 failed, 2 skipped''"
    by code_simp
qed

section \<open>The claims about the transport client\<close>

text \<open>An invocation of the transport that ends with a response with a status in [200,300).\<close>

text \<open>The options of a client created without any.\<close>

definition defaultOptions :: FernClientOptions where
  "defaultOptions =
     \<lparr>opt_baseUrl = None, opt_timeout = None, opt_retries = None, opt_retryDelay = None\<rparr>"

definition is2xx :: "TransportOutcome \<Rightarrow> bool" where
  "is2xx outcome = (case outcome of HttpResponse s \<Rightarrow> 200 \<le> s \<and> s < 300 | NoResponse c \<Rightarrow> False)"

lemma is2xx_iff:
  "is2xx outcome \<longleftrightarrow> (\<exists>s. outcome = HttpResponse s \<and> 200 \<le> s \<and> s < 300)"
  by (cases outcome) (simp_all add: is2xx_def)

lemma settle_Inr:
  "settle config outcome = Inr r \<Longrightarrow>
     outcome = HttpResponse (response_status r) \<and> 200 \<le> response_status r \<and> response_status r < 300"
  by (auto simp: settle_def split: TransportOutcome.splits if_splits)

lemma settle_Inl: "settle config outcome = Inl e \<Longrightarrow> \<not> is2xx outcome"
  by (auto simp: settle_def is2xx_def split: TransportOutcome.splits if_splits)

lemma httpClient_trace:
  "httpClient retries retryDelay transport config tr = (res, tr') \<Longrightarrow>
     calls tr < calls tr'
     \<and> (\<forall>k. calls tr \<le> k \<and> Suc k < calls tr' \<longrightarrow> \<not> is2xx (transport k))
     \<and> (case res of
           Inr r \<Rightarrow> transport (calls tr' - 1) = HttpResponse (response_status r)
                    \<and> 200 \<le> response_status r \<and> response_status r < 300
         | Inl e \<Rightarrow> \<not> is2xx (transport (calls tr' - 1)))"
proof (induction retries retryDelay transport config tr arbitrary: res tr' rule: httpClient.induct)
  case (1 retries retryDelay transport config tr)
  show ?case
  proof (cases "settle config (transport (calls tr))")
    case (Inr r)
    with "1.prems" have "res = Inr r" "tr' = tr\<lparr>calls := Suc (calls tr)\<rparr>"
      by (simp_all add: httpClient.simps [of retries retryDelay transport config tr])
    with settle_Inr [OF Inr] show ?thesis by auto
  next
    case (Inl e)
    note no = settle_Inl [OF Inl]
    show ?thesis
    proof (cases "retryInterceptor retries retryDelay e")
      case (Reject e')
      with Inl "1.prems" have "res = Inl e'" "tr' = tr\<lparr>calls := Suc (calls tr)\<rparr>"
        by (simp_all add: httpClient.simps [of retries retryDelay transport config tr])
      with no show ?thesis by auto
    next
      case (Retry config' delay)
      let ?tr = "tr\<lparr>calls := Suc (calls tr), waits := waits tr @ [delay]\<rparr>"
      from Inl Retry "1.prems"
      have r: "httpClient retries retryDelay transport config' ?tr = (res, tr')"
        by (simp add: httpClient.simps [of retries retryDelay transport config tr])
      from "1.IH" [OF Inl Retry r]
      have a: "Suc (calls tr) < calls tr'"
        and b: "\<forall>k. Suc (calls tr) \<le> k \<and> Suc k < calls tr' \<longrightarrow> \<not> is2xx (transport k)"
        and c: "(case res of
           Inr r \<Rightarrow> transport (calls tr' - 1) = HttpResponse (response_status r)
                    \<and> 200 \<le> response_status r \<and> response_status r < 300
         | Inl e \<Rightarrow> \<not> is2xx (transport (calls tr' - 1)))"
        by simp_all
      have "\<forall>k. calls tr \<le> k \<and> Suc k < calls tr' \<longrightarrow> \<not> is2xx (transport k)"
      proof (intro allI impI)
        fix k assume k: "calls tr \<le> k \<and> Suc k < calls tr'"
        show "\<not> is2xx (transport k)"
        proof (cases "k = calls tr")
          case True
          with no show ?thesis by simp
        next
          case False
          with k have "Suc (calls tr) \<le> k \<and> Suc k < calls tr'" by simp
          with b show ?thesis by blast
        qed
      qed
      with a c show ?thesis by simp
    qed
  qed
qed

lemma httpClient_ok_iff:
  assumes "httpClient retries retryDelay transport config tr = (res, tr')"
  shows "(\<exists>r. res = Inr r) \<longleftrightarrow> (\<exists>k. calls tr \<le> k \<and> k < calls tr' \<and> is2xx (transport k))"
proof
  assume "\<exists>r. res = Inr r"
  then obtain r where "res = Inr r" ..
  with httpClient_trace [OF assms]
  have "calls tr < calls tr'" "is2xx (transport (calls tr' - 1))"
    by (simp_all add: is2xx_def)
  then show "\<exists>k. calls tr \<le> k \<and> k < calls tr' \<and> is2xx (transport k)"
    by (intro exI [of _ "calls tr' - 1"]) simp
next
  assume "\<exists>k. calls tr \<le> k \<and> k < calls tr' \<and> is2xx (transport k)"
  then obtain k where k: "calls tr \<le> k" "k < calls tr'" "is2xx (transport k)" by blast
  from httpClient_trace [OF assms]
  have n: "\<forall>k. calls tr \<le> k \<and> Suc k < calls tr' \<longrightarrow> \<not> is2xx (transport k)"
    and c: "(case res of
           Inr r \<Rightarrow> transport (calls tr' - 1) = HttpResponse (response_status r)
                    \<and> 200 \<le> response_status r \<and> response_status r < 300
         | Inl e \<Rightarrow> \<not> is2xx (transport (calls tr' - 1)))"
    by simp_all
  from n k have "\<not> Suc k < calls tr'" by blast
  with k have "k = calls tr' - 1" by simp
  with k c show "\<exists>r. res = Inr r" by (cases res) simp_all
qed

text \<open>
  C8. For every outcome of the health-check request, \<open>ping\<close> returns true exactly when
  the request resolved with a response whose status is in [200,300), and false for every
  other outcome; it has no error result. Through the client, \<open>ping\<close> returns true exactly
  when an invocation of the transport made by the call received such a response.
\<close>

theorem ping_true_iff_2xx:
  "(pingResult outcome \<longleftrightarrow>
      (\<exists>r. outcome = Inr r \<and> 200 \<le> response_status r \<and> response_status r < 300))
   \<and> (fst (ping client transport) \<longleftrightarrow>
        (\<exists>k < calls (snd (ping client transport)).
           \<exists>s. transport k = HttpResponse s \<and> 200 \<le> s \<and> s < 300))"
proof
  show "pingResult outcome \<longleftrightarrow>
      (\<exists>r. outcome = Inr r \<and> 200 \<le> response_status r \<and> response_status r < 300)"
    by (cases outcome) (simp_all add: pingResult_def)
next
  let ?cfg = "\<lparr>request_method = ''get'', request_url = ''/api/v1/health'', retryCount = None\<rparr>"
  obtain res tr' where h: "httpClient (client_retries client) (client_retryDelay client)
      transport ?cfg newTrace = (res, tr')"
    by (cases "httpClient (client_retries client) (client_retryDelay client)
      transport ?cfg newTrace")
  then have p: "ping client transport = (pingResult res, tr')"
    by (simp add: ping_def)
  from httpClient_trace [OF h]
  have "pingResult res \<longleftrightarrow> (\<exists>r. res = Inr r)"
    by (cases res) (simp_all add: pingResult_def)
  also from httpClient_ok_iff [OF h]
  have "\<dots> \<longleftrightarrow> (\<exists>k < calls tr'. is2xx (transport k))"
    by (simp add: newTrace_def)
  also have "\<dots> \<longleftrightarrow> (\<exists>k < calls tr'. \<exists>s. transport k = HttpResponse s \<and> 200 \<le> s \<and> s < 300)"
    by (simp add: is2xx_iff)
  finally show "fst (ping client transport) \<longleftrightarrow>
        (\<exists>k < calls (snd (ping client transport)).
           \<exists>s. transport k = HttpResponse s \<and> 200 \<le> s \<and> s < 300)"
    using p by simp
qed

theorem ping_true_iff_2xx_witness:
  "ping (createFernClient ''p'' defaultOptions)
       (\<lambda>k. if k < 1 then NoResponse ''ECONNRESET'' else HttpResponse 204)
     = (True, \<lparr>calls = 2, waits = [1000]\<rparr>)
   \<and> (\<exists>k < (2::nat). \<exists>s. (if k < 1 then NoResponse ''ECONNRESET'' else HttpResponse 204)
                         = HttpResponse s \<and> 200 \<le> s \<and> s < 300)
   \<and> fst (ping (createFernClient ''p'' defaultOptions) (\<lambda>k. HttpResponse 404)) = False"
proof -
  let ?c = "createFernClient ''p'' defaultOptions"
  let ?t = "\<lambda>k::nat. if k < 1 then NoResponse ''ECONNRESET'' else HttpResponse 204"
  have e: "ping ?c ?t = (True, \<lparr>calls = 2, waits = [1000]\<rparr>)"
    by (simp add: ping_def pingResult_def newTrace_def createFernClient_def defaultOptions_def
        orDefaultNum_def httpClient.simps settle_def retryInterceptor_def)
  have f: "fst (ping ?c (\<lambda>k. HttpResponse 404)) = False"
    by (simp add: ping_def pingResult_def newTrace_def createFernClient_def defaultOptions_def
        orDefaultNum_def httpClient.simps settle_def retryInterceptor_def)
  from ping_true_iff_2xx [of undefined ?c ?t] e
  have x: "\<exists>k < (2::nat). \<exists>s. ?t k = HttpResponse s \<and> 200 \<le> s \<and> s < 300"
    by simp
  show ?thesis by (rule conjI [OF e conjI [OF x f]])
qed

text \<open>
  C3. When the first attempt of \<open>report\<close> receives a response with a status in [400,500),
  \<open>report\<close> throws the error of that response at once: the transport is invoked exactly
  once and nothing is waited for.
\<close>

theorem report_4xx_terminal:
  assumes "transport 0 = HttpResponse s" and "400 \<le> s" and "s < 500"
  shows "report client transport =
     (Inl \<lparr>error_config = Some \<lparr>request_method = ''post'', request_url = ''/api/v1/test-runs'',
                                 retryCount = Some 1\<rparr>,
           error_response = Some \<lparr>response_status = s\<rparr>,
           error_code = Some ''ERR_BAD_REQUEST''\<rparr>,
      \<lparr>calls = 1, waits = []\<rparr>)"
  using assms
  by (simp add: report_def newTrace_def httpClient.simps settle_def retryInterceptor_def)

theorem report_4xx_terminal_witness:
  "report (createFernClient ''p'' defaultOptions) (\<lambda>k. HttpResponse 404) =
     (Inl \<lparr>error_config = Some \<lparr>request_method = ''post'', request_url = ''/api/v1/test-runs'',
                                 retryCount = Some 1\<rparr>,
           error_response = Some \<lparr>response_status = 404\<rparr>,
           error_code = Some ''ERR_BAD_REQUEST''\<rparr>,
      \<lparr>calls = 1, waits = []\<rparr>)"
  using report_4xx_terminal [of "\<lambda>k. HttpResponse 404" 404 "createFernClient ''p'' defaultOptions"]
  by simp

text \<open>
  C4. When the transport fails without a response on the first two attempts and answers
  with a status in [200,300) on the third, and the retry count of the client is at least 3,
  \<open>report\<close> returns normally and the transport was invoked exactly 3 times, after waits
  of once and twice the retry delay.
\<close>

theorem report_retries_network_errors:
  assumes "transport 0 = NoResponse c0" and "transport 1 = NoResponse c1"
    and "transport 2 = HttpResponse s" and "200 \<le> s" and "s < 300"
    and "3 \<le> client_retries client"
  shows "report client transport =
     (Inr (), \<lparr>calls = 3,
               waits = [client_retryDelay client * 1, client_retryDelay client * 2]\<rparr>)"
proof -
  from assms(2,3) have t: "transport (Suc 0) = NoResponse c1"
    "transport (Suc (Suc 0)) = HttpResponse s"
    by (simp_all add: numeral_2_eq_2)
  from assms(1,4,5,6) t show ?thesis
    by (simp add: report_def newTrace_def httpClient.simps settle_def retryInterceptor_def)
qed

theorem report_retries_network_errors_witness:
  "client_retries (createFernClient ''p'' defaultOptions) = 3
   \<and> report (createFernClient ''p'' defaultOptions)
       (\<lambda>k. if k < 2 then NoResponse ''ECONNREFUSED'' else HttpResponse 201)
     = (Inr (), \<lparr>calls = 3, waits = [1000, 2000]\<rparr>)"
  using report_retries_network_errors
    [of "\<lambda>k. if k < 2 then NoResponse ''ECONNREFUSED'' else HttpResponse 201"
        "''ECONNREFUSED''" "''ECONNREFUSED''" 201 "createFernClient ''p'' defaultOptions"]
  by (simp add: createFernClient_def defaultOptions_def orDefaultNum_def)

end
